theory Spec2Isabelle
  imports Main "HOL-Library.Word" "HOL-Library.AList"
begin

section \<open>Strings and numbers of the host language\<close>

text \<open>
  A JavaScript string is a sequence of UTF-16 code units; \<open>charCodeAt\<close> reads one of
  them as a number between 0 and 65535. Literals of the source are written with \<open>lit\<close>.
\<close>

type_synonym jschar = "16 word"
type_synonym jsstring = "jschar list"

definition lit :: "string \<Rightarrow> jsstring" where
  "lit s = map of_char s"

text \<open>
  \<open>'' + n\<close> for a number \<open>n\<close>: the decimal digits. Node ids, the id counter and
  durations are modelled as integers, in the range where a JavaScript number is an exact
  integer printed in plain decimal notation.
\<close>

fun digitsOf :: "nat \<Rightarrow> jsstring" where
  "digitsOf n =
     (if n < 10 then [of_nat (48 + n)]
      else digitsOf (n div 10) @ [of_nat (48 + n mod 10)])"

definition numberToString :: "int \<Rightarrow> jsstring" where
  "numberToString i = (if i < 0 then lit ''-'' @ digitsOf (nat (- i)) else digitsOf (nat i))"

definition booleanToString :: "bool \<Rightarrow> jsstring" where
  "booleanToString b = (if b then lit ''true'' else lit ''false'')"

section \<open>Errors\<close>

datatype NodeState = CREATED | REGISTERED | STARTED | FINISHED

text \<open>
  Every \<open>throw Error(...)\<close> of the source is one constructor, named after its message.
  \<open>TypeError\<close> is what the runtime raises when a method or a property is used on an
  object that does not have it (\<open>children\<close> of a test node, \<open>addTestChild\<close> of a test
  node, ...), and \<open>RangeError\<close> what it raises when the call stack is exhausted.
\<close>

datatype error =
    UnexpectedNodeState NodeState
  | CannotStartFinishedNode
  | ChildNodeCannotBeCreated
  | OutcomeAlreadySet
  | UnexpectedOutcome
  | StringLengthShouldBe1
  | BadMapping
  | TypeError
  | RangeError

text \<open>The error classes of the specification: which messages count as which class.\<close>

fun isIllegalState :: "error \<Rightarrow> bool" where
  "isIllegalState (UnexpectedNodeState s) = True"
| "isIllegalState CannotStartFinishedNode = True"
| "isIllegalState ChildNodeCannotBeCreated = True"
| "isIllegalState e = False"

fun isAlreadySet :: "error \<Rightarrow> bool" where
  "isAlreadySet OutcomeAlreadySet = True"
| "isAlreadySet e = False"

section \<open>Escaper\<close>

text \<open>
  \<open>doEscapeCharCode\<close> is a closure over a table \<open>obj\<close> that nine calls of
  \<open>addMapping\<close> fill when the module is loaded. The table is an association list from
  char codes to one-character strings.
\<close>

definition addMapping ::
  "jsstring \<Rightarrow> jsstring \<Rightarrow> (jschar \<times> jsstring) list \<Rightarrow> error + (jschar \<times> jsstring) list" where
  "addMapping fromChar toChar obj =
     (if length fromChar \<noteq> 1 \<or> length toChar \<noteq> 1 then Inl StringLengthShouldBe1
      else let fromCharCode = hd fromChar in
        if map_of obj fromCharCode = None then Inr (obj @ [(fromCharCode, toChar)])
        else Inl BadMapping)"

definition andThen :: "error + 'a \<Rightarrow> ('a \<Rightarrow> error + 'b) \<Rightarrow> error + 'b" where
  "andThen r f = (case r of Inl e \<Rightarrow> Inl e | Inr x \<Rightarrow> f x)"

definition escapeMappings :: "error + (jschar \<times> jsstring) list" where
  "escapeMappings =
     andThen (andThen (andThen (andThen (andThen (andThen (andThen (andThen (andThen (Inr [])
       (addMapping [0x0A] (lit ''n'')))
       (addMapping [0x0D] (lit ''r'')))
       (addMapping [0x85] (lit ''x'')))
       (addMapping [0x2028] (lit ''l'')))
       (addMapping [0x2029] (lit ''p'')))
       (addMapping (lit ''|'') (lit ''|'')))
       (addMapping [0x27] [0x27]))
       (addMapping (lit ''['') (lit ''['')))
       (addMapping (lit '']'') (lit '']''))"

definition doEscapeCharCode :: "jschar \<Rightarrow> jsstring option" where
  "doEscapeCharCode charCode =
     (case escapeMappings of Inl e \<Rightarrow> None | Inr obj \<Rightarrow> map_of obj charCode)"

text \<open>The truth value of \<open>obj[charCode]\<close>: \<open>undefined\<close> and the empty string are false.\<close>

fun truthy :: "jsstring option \<Rightarrow> bool" where
  "truthy None = False"
| "truthy (Some s) = (s \<noteq> [])"

fun isAttributeValueEscapingNeeded :: "jsstring \<Rightarrow> bool" where
  "isAttributeValueEscapingNeeded [] = False"
| "isAttributeValueEscapingNeeded (c # cs) =
     (if truthy (doEscapeCharCode c) then True else isAttributeValueEscapingNeeded cs)"

text \<open>The second loop of \<open>escapeAttributeValue\<close>, with its accumulator \<open>res\<close>.\<close>

fun escapeLoop :: "jsstring \<Rightarrow> jsstring \<Rightarrow> jsstring" where
  "escapeLoop [] res = res"
| "escapeLoop (c # cs) res =
     (let escaped = doEscapeCharCode c in
      if truthy escaped then escapeLoop cs ((res @ lit ''|'') @ the escaped)
      else escapeLoop cs (res @ [c]))"

definition escapeAttributeValue :: "jsstring \<Rightarrow> jsstring" where
  "escapeAttributeValue str =
     (if \<not> isAttributeValueEscapingNeeded str then str else escapeLoop str [])"

text \<open>
  The escaping scheme as the specification words it: nine characters, each with its
  designated substitute, written as a pipe followed by the substitute.
\<close>

definition spec_substitute :: "jschar \<Rightarrow> jschar option" where
  "spec_substitute c =
     (if c = 0x0A then Some (of_char CHR ''n'')
      else if c = 0x0D then Some (of_char CHR ''r'')
      else if c = 0x85 then Some (of_char CHR ''x'')
      else if c = 0x2028 then Some (of_char CHR ''l'')
      else if c = 0x2029 then Some (of_char CHR ''p'')
      else if c = of_char CHR ''|'' then Some (of_char CHR ''|'')
      else if c = 0x27 then Some 0x27
      else if c = of_char CHR ''['' then Some (of_char CHR ''['')
      else if c = of_char CHR '']'' then Some (of_char CHR '']'')
      else None)"

definition spec_escape_char :: "jschar \<Rightarrow> jsstring" where
  "spec_escape_char c =
     (case spec_substitute c of None \<Rightarrow> [c] | Some s \<Rightarrow> [of_char CHR ''|'', s])"

definition spec_escape :: "jsstring \<Rightarrow> jsstring" where
  "spec_escape str = concat (map spec_escape_char str)"

text \<open>
  Decoding under the two-character scheme: a pipe announces a substitute, which stands for
  its original character; any other character stands for itself, and a reserved character
  that is not announced by a pipe, or a pipe before anything but a substitute, is no
  encoding at all.
\<close>

definition spec_original :: "jschar \<Rightarrow> jschar option" where
  "spec_original s =
     (if s = of_char CHR ''n'' then Some 0x0A
      else if s = of_char CHR ''r'' then Some 0x0D
      else if s = of_char CHR ''x'' then Some 0x85
      else if s = of_char CHR ''l'' then Some 0x2028
      else if s = of_char CHR ''p'' then Some 0x2029
      else if s = of_char CHR ''|'' then Some (of_char CHR ''|'')
      else if s = 0x27 then Some 0x27
      else if s = of_char CHR ''['' then Some (of_char CHR ''['')
      else if s = of_char CHR '']'' then Some (of_char CHR '']'')
      else None)"

fun spec_decode :: "jsstring \<Rightarrow> jsstring option" where
  "spec_decode [] = Some []"
| "spec_decode [c] = (if spec_substitute c = None then Some [c] else None)"
| "spec_decode (c # s # cs) =
     (if c = of_char CHR ''|'' then
        (case spec_original s of None \<Rightarrow> None
         | Some orig \<Rightarrow> map_option ((#) orig) (spec_decode cs))
      else if spec_substitute c = None then map_option ((#) c) (spec_decode (s # cs))
      else None)"

text \<open>The nine characters that the specification lists as escapable.\<close>

definition escapable :: "jschar set" where
  "escapable = {0x0A, 0x0D, 0x85, 0x2028, 0x2029, of_char CHR ''|'', 0x27,
                of_char CHR ''['', of_char CHR '']''}"

text \<open>Reading a string of decimal digits back as a number.\<close>

definition digitValue :: "jsstring \<Rightarrow> nat" where
  "digitValue s = foldl (\<lambda>acc c. 10 * acc + (unat c - 48)) 0 s"

section \<open>Data model\<close>

text \<open>
  Objects live in a store: an address is an index into the list of all node objects of the
  tree, and a reference to a node is its address. \<open>new\<close> appends to the store. A
  reference of the source always points to an object; an address outside the store has no
  counterpart there, and using one is answered with \<open>TypeError\<close>.
\<close>

type_synonym addr = nat

datatype TestOutcome = SUCCESS | SKIPPED | FAILED | ERROR

text \<open>A node id is the number the tree counted, or the string \<open>idPrefix + '-' + n\<close>.\<close>

datatype node_id = NumId nat | StrId jsstring

fun idToString :: "node_id \<Rightarrow> jsstring" where
  "idToString (NumId n) = digitsOf n"
| "idToString (StrId s) = s"

text \<open>An entry of \<open>lookupMap\<close>: one child, or an array of children of the same name.\<close>

datatype lookup = Single addr | Many "addr list"

record TestSuiteFields =
  children :: "addr list"
  lookupMap :: "(jsstring \<times> lookup) list"
  finishedChildCount :: nat

record TestFields =
  outcome :: "TestOutcome option"
  durationMillis :: "int option"
  failureMsg :: "jsstring option"
  failureDetails :: "jsstring option"
  expectedStr :: "jsstring option"
  actualStr :: "jsstring option"
  expectedFilePath :: "jsstring option"
  actualFilePath :: "jsstring option"
  metainfo :: "jsstring option"

datatype variant = TestSuiteNode TestSuiteFields | TestNode TestFields

text \<open>
  The fields of \<open>Node\<close>; \<open>variant\<close> holds the fields the constructor of the subclass
  adds. \<open>None\<close> stands for \<open>null\<close> and \<open>undefined\<close>. Every node of a store belongs
  to the one tree that owns the store, so the field \<open>tree\<close> is not stored.
\<close>

record Node =
  id_node :: node_id
  parent :: "addr option"
  name :: jsstring
  type_node :: "jsstring option"
  locationPath :: "jsstring option"
  state :: NodeState
  variant :: variant

text \<open>
  The tree, with the store of its nodes and with \<open>written\<close>, the strings that the
  \<open>write\<close> callback has received, oldest first.
\<close>

record Tree =
  idPrefix :: "jsstring option"
  written :: "jsstring list"
  root :: addr
  nextId :: nat
  heap :: "Node list"

definition deref :: "Tree \<Rightarrow> addr \<Rightarrow> Node option" where
  "deref t a = (if a < length (heap t) then Some (heap t ! a) else None)"

definition updNode :: "Tree \<Rightarrow> addr \<Rightarrow> (Node \<Rightarrow> Node) \<Rightarrow> Tree" where
  "updNode t a f = t\<lparr>heap := (heap t)[a := f (heap t ! a)]\<rparr>"

definition setState :: "Tree \<Rightarrow> addr \<Rightarrow> NodeState \<Rightarrow> Tree" where
  "setState t a s = updNode t a (\<lambda>n. n\<lparr>state := s\<rparr>)"

definition writeln :: "Tree \<Rightarrow> jsstring \<Rightarrow> Tree" where
  "writeln t str = t\<lparr>written := written t @ [str @ [0x0A]]\<rparr>"

definition newTestSuiteNode ::
  "node_id \<Rightarrow> addr option \<Rightarrow> jsstring \<Rightarrow> jsstring option \<Rightarrow> jsstring option \<Rightarrow> Node" where
  "newTestSuiteNode i p n ty loc =
     \<lparr>id_node = i, parent = p, name = n, type_node = ty, locationPath = loc, state = CREATED,
      variant = TestSuiteNode \<lparr>children = [], lookupMap = [], finishedChildCount = 0\<rparr>\<rparr>"

definition newTestNode ::
  "node_id \<Rightarrow> addr option \<Rightarrow> jsstring \<Rightarrow> jsstring option \<Rightarrow> jsstring option \<Rightarrow> Node" where
  "newTestNode i p n ty loc =
     \<lparr>id_node = i, parent = p, name = n, type_node = ty, locationPath = loc, state = CREATED,
      variant = TestNode \<lparr>outcome = None, durationMillis = None, failureMsg = None,
        failureDetails = None, expectedStr = None, actualStr = None, expectedFilePath = None,
        actualFilePath = None, metainfo = None\<rparr>\<rparr>"

text \<open>\<open>new Tree(idPrefix, write)\<close>: the hidden root is the first object of the store.\<close>

definition newTree :: "jsstring option \<Rightarrow> Tree" where
  "newTree prefix =
     \<lparr>idPrefix = prefix, written = [], root = 0, nextId = 1,
      heap = [newTestSuiteNode (NumId 0) None (lit ''hidden root'') None None]\<rparr>"

section \<open>Tree operations\<close>

definition startNotify :: "Tree \<Rightarrow> Tree" where
  "startNotify t = writeln t (lit ''##teamcity[enteredTheMatrix]'')"

definition updateRootNode :: "Tree \<Rightarrow> jsstring \<Rightarrow> jsstring option \<Rightarrow> jsstring option \<Rightarrow> Tree" where
  "updateRootNode t nm comment location =
     (let str = lit ''##teamcity[rootName name='' @ [0x27] @ escapeAttributeValue nm;
          str = (case comment of None \<Rightarrow> str
                 | Some c \<Rightarrow> str @ [0x27] @ lit '' comment='' @ [0x27] @ escapeAttributeValue c);
          str = (case location of None \<Rightarrow> str
                 | Some l \<Rightarrow> str @ [0x27] @ lit '' location='' @ [0x27] @ escapeAttributeValue l)
      in writeln t (str @ [0x27] @ lit '']''))"

text \<open>The count is a number or not a number at all (\<open>None\<close>).\<close>

definition addTotalTestCount :: "Tree \<Rightarrow> int option \<Rightarrow> Tree" where
  "addTotalTestCount t totalTestCount =
     (case totalTestCount of None \<Rightarrow> t
      | Some n \<Rightarrow>
          if n > 0 then
            writeln t (lit ''##teamcity[testCount count='' @ [0x27] @ numberToString n
                       @ [0x27] @ lit '']'')
          else t)"

definition testingStarted :: "Tree \<Rightarrow> Tree" where
  "testingStarted t = writeln t (lit ''##teamcity[testingStarted]'')"

definition testingFinished :: "Tree \<Rightarrow> Tree" where
  "testingFinished t = writeln t (lit ''##teamcity[testingFinished]'')"

section \<open>Node state machine\<close>

text \<open>
  The two subclasses override \<open>getStartCommandName\<close>, \<open>getFinishCommandName\<close> and
  \<open>getExtraFinishMessageParameters\<close>; the abstract versions of \<open>Node\<close> are never
  reached, since every object of a store is a suite node or a test node.
\<close>

definition getStartCommandName :: "Node \<Rightarrow> jsstring" where
  "getStartCommandName n =
     (case variant n of TestSuiteNode s \<Rightarrow> lit ''testSuiteStarted''
      | TestNode l \<Rightarrow> lit ''testStarted'')"

definition getFinishCommandName :: "Node \<Rightarrow> error + jsstring" where
  "getFinishCommandName n =
     (case variant n of TestSuiteNode s \<Rightarrow> Inr (lit ''testSuiteFinished'')
      | TestNode l \<Rightarrow>
          (case outcome l of
             Some SUCCESS \<Rightarrow> Inr (lit ''testFinished'')
           | Some SKIPPED \<Rightarrow> Inr (lit ''testIgnored'')
           | Some FAILED \<Rightarrow> Inr (lit ''testFailed'')
           | Some ERROR \<Rightarrow> Inr (lit ''testFailed'')
           | None \<Rightarrow> Inl UnexpectedOutcome))"

text \<open>One \<open>key='value'\<close> attribute, as the source concatenates it.\<close>

definition attr :: "string \<Rightarrow> jsstring \<Rightarrow> jsstring" where
  "attr key v = lit '' '' @ lit key @ lit ''='' @ [0x27] @ v @ [0x27]"

definition optAttr :: "string \<Rightarrow> jsstring option \<Rightarrow> jsstring" where
  "optAttr key v = (case v of None \<Rightarrow> [] | Some s \<Rightarrow> attr key (escapeAttributeValue s))"

definition getExtraFinishMessageParameters :: "Node \<Rightarrow> jsstring option" where
  "getExtraFinishMessageParameters n =
     (case variant n of TestSuiteNode s \<Rightarrow> None
      | TestNode l \<Rightarrow>
          (let params = [];
               params = (case durationMillis l of None \<Rightarrow> params
                         | Some d \<Rightarrow> params @ attr ''duration'' (numberToString d));
               params = (if outcome l = Some ERROR then params @ attr ''error'' (lit ''yes'')
                         else params);
               params = params @ optAttr ''message'' (failureMsg l);
               params = params @ optAttr ''details'' (failureDetails l);
               params = params @ optAttr ''expected'' (expectedStr l);
               params = params @ optAttr ''actual'' (actualStr l);
               params = params @ optAttr ''expectedFile'' (expectedFilePath l);
               params = params @ optAttr ''actualFile'' (actualFilePath l)
           in if length params = 0 then None else Some params))"

definition getFinishMessage :: "Node \<Rightarrow> error + jsstring" where
  "getFinishMessage n =
     (case getFinishCommandName n of Inl e \<Rightarrow> Inl e
      | Inr cmd \<Rightarrow>
          (let text = lit ''##teamcity['' @ cmd;
               text = text @ lit '' nodeId='' @ [0x27] @ idToString (id_node n) @ [0x27];
               text = (case getExtraFinishMessageParameters n of None \<Rightarrow> text
                       | Some extraParameters \<Rightarrow> text @ extraParameters)
           in Inr (text @ lit '']'')))"

text \<open>\<open>this.metainfo\<close>: a field of test nodes only, \<open>undefined\<close> on a suite.\<close>

definition metainfoOf :: "Node \<Rightarrow> jsstring option" where
  "metainfoOf n = (case variant n of TestSuiteNode s \<Rightarrow> None | TestNode l \<Rightarrow> metainfo l)"

definition getInitMessage :: "Tree \<Rightarrow> Node \<Rightarrow> bool \<Rightarrow> error + jsstring" where
  "getInitMessage t n running =
     (case (case parent n of None \<Rightarrow> Inr (NumId 0)
            | Some p \<Rightarrow> (case deref t p of None \<Rightarrow> Inl TypeError
                         | Some pn \<Rightarrow> Inr (id_node pn))) of
        Inl e \<Rightarrow> Inl e
      | Inr parentId \<Rightarrow>
          (let text = lit ''##teamcity['' @ getStartCommandName n;
               text = text @ lit '' nodeId='' @ [0x27] @ idToString (id_node n);
               text = text @ [0x27] @ lit '' parentNodeId='' @ [0x27] @ idToString parentId;
               text = text @ [0x27] @ lit '' name='' @ [0x27] @ escapeAttributeValue (name n);
               text = text @ [0x27] @ lit '' running='' @ [0x27] @ booleanToString running;
               text = (case type_node n of None \<Rightarrow> text
                  | Some ty \<Rightarrow>
                      (let text = text @ [0x27] @ lit '' nodeType='' @ [0x27] @ ty in
                       case locationPath n of None \<Rightarrow> text
                       | Some loc \<Rightarrow> text @ [0x27] @ lit '' locationHint='' @ [0x27]
                           @ escapeAttributeValue (ty @ lit ''://'' @ loc)));
               text = (case metainfoOf n of None \<Rightarrow> text
                  | Some m \<Rightarrow> text @ [0x27] @ lit '' metainfo='' @ [0x27]
                      @ escapeAttributeValue m)
           in Inr (text @ [0x27] @ lit '']'')))"

definition getRegisterMessage :: "Tree \<Rightarrow> Node \<Rightarrow> error + jsstring" where
  "getRegisterMessage t n =
     (if state n = CREATED then getInitMessage t n False
      else Inl (UnexpectedNodeState (state n)))"

definition register :: "Tree \<Rightarrow> addr \<Rightarrow> (error + unit) \<times> Tree" where
  "register t a =
     (case deref t a of None \<Rightarrow> (Inl TypeError, t)
      | Some n \<Rightarrow>
          (case getRegisterMessage t n of Inl e \<Rightarrow> (Inl e, t)
           | Inr text \<Rightarrow> (Inr (), setState (writeln t text) a REGISTERED)))"

definition getStartMessage :: "Tree \<Rightarrow> Node \<Rightarrow> error + jsstring" where
  "getStartMessage t n =
     (if state n = CREATED then getInitMessage t n True
      else if state n = REGISTERED then
        Inr (lit ''##teamcity['' @ getStartCommandName n @ lit '' nodeId='' @ [0x27]
             @ idToString (id_node n) @ [0x27] @ lit '' running='' @ [0x27] @ lit ''true''
             @ [0x27] @ lit '']'')
      else Inl (UnexpectedNodeState (state n)))"

definition start :: "Tree \<Rightarrow> addr \<Rightarrow> (error + unit) \<times> Tree" where
  "start t a =
     (case deref t a of None \<Rightarrow> (Inl TypeError, t)
      | Some n \<Rightarrow>
          if state n = FINISHED then (Inl CannotStartFinishedNode, t)
          else if state n = STARTED then (Inr (), t)
          else (case getStartMessage t n of Inl e \<Rightarrow> (Inl e, t)
                | Inr text \<Rightarrow> (Inr (), setState (writeln t text) a STARTED)))"

definition isFinished :: "Node \<Rightarrow> bool" where
  "isFinished n = (state n = FINISHED)"

text \<open>
  \<open>finish\<close> calls \<open>onChildFinished\<close> of the parent, which calls \<open>finish\<close> of the
  parent. Every round turns one node that was not finished into a finished one, so the
  number of unfinished nodes of the store bounds the recursion.
\<close>

definition unfinished :: "Tree \<Rightarrow> nat" where
  "unfinished t = length (filter (\<lambda>n. state n \<noteq> FINISHED) (heap t))"

lemma filter_update_drops:
  "a < length xs \<Longrightarrow> P (xs ! a) \<Longrightarrow> \<not> P y \<Longrightarrow>
   length (filter P (xs[a := y])) < length (filter P xs)"
proof (induction xs arbitrary: a)
  case Nil
  then show ?case by simp
next
  case (Cons x xs)
  show ?case
  proof (cases a)
    case 0
    with Cons.prems show ?thesis by (simp add: le_imp_less_Suc)
  next
    case (Suc b)
    with Cons.prems Cons.IH[of b] show ?thesis by simp
  qed
qed

lemma filter_update_keeps:
  "a < length xs \<Longrightarrow> P y = P (xs ! a) \<Longrightarrow>
   length (filter P (xs[a := y])) = length (filter P xs)"
proof (induction xs arbitrary: a)
  case Nil
  then show ?case by simp
next
  case (Cons x xs)
  show ?case
  proof (cases a)
    case 0
    with Cons.prems show ?thesis by simp
  next
    case (Suc b)
    with Cons.prems Cons.IH[of b] show ?thesis by simp
  qed
qed

lemma unfinished_setState_FINISHED:
  "deref t a = Some n \<Longrightarrow> state n \<noteq> FINISHED \<Longrightarrow>
   unfinished (setState (writeln t msg) a FINISHED) < unfinished t"
  by (auto simp: unfinished_def setState_def updNode_def writeln_def deref_def
      split: if_splits intro!: filter_update_drops)

lemma unfinished_variant_update:
  "deref t a = Some n \<Longrightarrow>
   unfinished (updNode t a (\<lambda>n. n\<lparr>variant := v n\<rparr>)) = unfinished t"
  by (simp add: unfinished_def updNode_def deref_def filter_update_keeps split: if_splits)

function finish :: "Tree \<Rightarrow> addr \<Rightarrow> bool \<Rightarrow> (error + unit) \<times> Tree"
  and onChildFinished :: "Tree \<Rightarrow> addr \<Rightarrow> (error + unit) \<times> Tree" where
  "finish t a finishParentIfLast =
     (if root t = a then (Inr (), t)
      else case deref t a of None \<Rightarrow> (Inl TypeError, t)
      | Some n \<Rightarrow>
          if state n \<noteq> REGISTERED \<and> state n \<noteq> STARTED then
            (Inl (UnexpectedNodeState (state n)), t)
          else (case getFinishMessage n of Inl e \<Rightarrow> (Inl e, t)
            | Inr text \<Rightarrow>
                (let t' = setState (writeln t text) a FINISHED in
                 if finishParentIfLast then
                   (case parent n of None \<Rightarrow> (Inr (), t')
                    | Some p \<Rightarrow> if p \<noteq> root t' then onChildFinished t' p else (Inr (), t'))
                 else (Inr (), t'))))"
| "onChildFinished t a =
     (case deref t a of None \<Rightarrow> (Inl TypeError, t)
      | Some n \<Rightarrow>
          (case variant n of TestNode l \<Rightarrow> (Inl TypeError, t)
           | TestSuiteNode s \<Rightarrow>
               (let t' = updNode t a (\<lambda>n. n\<lparr>variant :=
                      TestSuiteNode (s\<lparr>finishedChildCount := finishedChildCount s + 1\<rparr>)\<rparr>) in
                if finishedChildCount s + 1 = length (children s) then
                  (if state n \<noteq> FINISHED then finish t' a True else (Inr (), t'))
                else (Inr (), t'))))"
  by pat_completeness auto
termination
proof (relation "measure (\<lambda>x. case x of Inl (t, a, b) \<Rightarrow> 2 * unfinished t
                                   | Inr (t, a) \<Rightarrow> 2 * unfinished t + 1)", goal_cases)
  case 1
  show ?case by simp
next
  case (2 t a b n msg t' p)
  then show ?case using unfinished_setState_FINISHED[of t a n msg] by auto
next
  case (3 t a n s t')
  then show ?case by (simp add: unfinished_variant_update)
qed

text \<open>
  The loop of \<open>finishIfStarted\<close> over \<open>this.children\<close>; an exception of one call ends
  it. No call of the loop body changes the children of any node, so the loop runs over
  the children as they are when it starts.
\<close>

fun forEachChild ::
  "(Tree \<Rightarrow> addr \<Rightarrow> (error + unit) \<times> Tree) \<Rightarrow> Tree \<Rightarrow> addr list \<Rightarrow> (error + unit) \<times> Tree" where
  "forEachChild f t [] = (Inr (), t)"
| "forEachChild f t (c # cs) =
     (case f t c of (Inl e, t') \<Rightarrow> (Inl e, t') | (Inr u, t') \<Rightarrow> forEachChild f t' cs)"

text \<open>
  \<open>finishIfStarted\<close> is a method of \<open>Node\<close> and descends into \<open>this.children\<close>, a
  field that only suite nodes have: on a test node that is not finished, reading
  \<open>this.children.length\<close> raises \<open>TypeError\<close>. The first argument is the number of
  stack frames left for the recursion; at none left the runtime raises \<open>RangeError\<close>.
  \<open>this.finish()\<close> passes no argument, so nothing is propagated to the parent.
\<close>

primrec finishIfStarted :: "nat \<Rightarrow> Tree \<Rightarrow> addr \<Rightarrow> (error + unit) \<times> Tree" where
  "finishIfStarted 0 = (\<lambda>t a. (Inl RangeError, t))"
| "finishIfStarted (Suc depth) = (\<lambda>t a.
     case deref t a of None \<Rightarrow> (Inl TypeError, t)
     | Some n \<Rightarrow>
         if state n \<noteq> FINISHED then
           (case variant n of TestNode l \<Rightarrow> (Inl TypeError, t)
            | TestSuiteNode s \<Rightarrow>
                (case forEachChild (finishIfStarted depth) t (children s) of
                   (Inl e, t') \<Rightarrow> (Inl e, t')
                 | (Inr u, t') \<Rightarrow> finish t' a False))
         else (Inr (), t))"

section \<open>Suite nodes\<close>

text \<open>
  \<open>lookupMap\<close> is a plain object used as a dictionary. Assigning to its key
  \<open>__proto__\<close> sets the prototype of the object and creates no property of its own, so
  \<open>hasOwnProperty\<close> never finds that key.
\<close>

definition setProperty :: "(jsstring \<times> lookup) list \<Rightarrow> jsstring \<Rightarrow> lookup \<Rightarrow> (jsstring \<times> lookup) list" where
  "setProperty m k v = (if k = lit ''__proto__'' then m else AList.update k v m)"

definition getChildrenByName :: "TestSuiteFields \<Rightarrow> jsstring \<Rightarrow> lookup option" where
  "getChildrenByName parentNode childName = map_of (lookupMap parentNode) childName"

definition addChildNode :: "TestSuiteFields \<Rightarrow> jsstring \<Rightarrow> addr \<Rightarrow> TestSuiteFields" where
  "addChildNode parentNode childName childNode =
     (case getChildrenByName parentNode childName of
        Some (Many cs) \<Rightarrow>
          parentNode\<lparr>lookupMap := setProperty (lookupMap parentNode) childName
                                     (Many (cs @ [childNode]))\<rparr>
      | Some (Single c) \<Rightarrow>
          parentNode\<lparr>lookupMap := setProperty (lookupMap parentNode) childName
                                     (Many ([c] @ [childNode]))\<rparr>
      | None \<Rightarrow>
          parentNode\<lparr>lookupMap := setProperty (lookupMap parentNode) childName
                                     (Single childNode)\<rparr>)"

definition isSuiteAt :: "Tree \<Rightarrow> addr \<Rightarrow> bool" where
  "isSuiteAt t a =
     (case deref t a of None \<Rightarrow> False
      | Some n \<Rightarrow> (case variant n of TestSuiteNode s \<Rightarrow> True | TestNode l \<Rightarrow> False))"

definition findChildNodeByName :: "Tree \<Rightarrow> addr \<Rightarrow> jsstring \<Rightarrow> error + addr option" where
  "findChildNodeByName t a childName =
     (case deref t a of None \<Rightarrow> Inl TypeError
      | Some n \<Rightarrow>
          (case variant n of TestNode l \<Rightarrow> Inl TypeError
           | TestSuiteNode s \<Rightarrow>
               (case getChildrenByName s childName of
                  Some (Many result) \<Rightarrow>
                    (case find (isSuiteAt t) result of
                       Some suite \<Rightarrow> Inr (Some suite)
                     | None \<Rightarrow> Inr (case result of [] \<Rightarrow> None | c # cs \<Rightarrow> Some c))
                | Some (Single c) \<Rightarrow> Inr (Some c)
                | None \<Rightarrow> Inr None)))"

text \<open>
  \<open>addTestChild\<close> and \<open>addTestSuiteChild\<close> are the same text but for the constructor
  they call, which is the first argument here. Both are methods of suite nodes only.
\<close>

definition makeChildId :: "jsstring option \<Rightarrow> nat \<Rightarrow> node_id" where
  "makeChildId prefix childId =
     (case prefix of None \<Rightarrow> NumId childId
      | Some p \<Rightarrow> StrId (p @ lit ''-'' @ digitsOf childId))"

definition addChild ::
  "(node_id \<Rightarrow> addr option \<Rightarrow> jsstring \<Rightarrow> jsstring option \<Rightarrow> jsstring option \<Rightarrow> Node) \<Rightarrow>
   Tree \<Rightarrow> addr \<Rightarrow> jsstring \<Rightarrow> jsstring option \<Rightarrow> jsstring option \<Rightarrow> (error + addr) \<times> Tree" where
  "addChild new t a childName nodeType locPath =
     (case deref t a of None \<Rightarrow> (Inl TypeError, t)
      | Some n \<Rightarrow>
          (case variant n of TestNode l \<Rightarrow> (Inl TypeError, t)
           | TestSuiteNode s \<Rightarrow>
               if state n = FINISHED then (Inl ChildNodeCannotBeCreated, t)
               else
                 (let childId = makeChildId (idPrefix t) (nextId t);
                      t = t\<lparr>nextId := nextId t + 1\<rparr>;
                      child = length (heap t);
                      t = t\<lparr>heap := heap t @ [new childId (Some a) childName nodeType locPath]\<rparr>;
                      t = updNode t a (\<lambda>n. n\<lparr>variant := TestSuiteNode
                            (addChildNode (s\<lparr>children := children s @ [child]\<rparr>)
                               childName child)\<rparr>)
                  in (Inr child, t))))"

definition addTestChild ::
  "Tree \<Rightarrow> addr \<Rightarrow> jsstring \<Rightarrow> jsstring option \<Rightarrow> jsstring option \<Rightarrow> (error + addr) \<times> Tree" where
  "addTestChild = addChild newTestNode"

definition addTestSuiteChild ::
  "Tree \<Rightarrow> addr \<Rightarrow> jsstring \<Rightarrow> jsstring option \<Rightarrow> jsstring option \<Rightarrow> (error + addr) \<times> Tree" where
  "addTestSuiteChild = addChild newTestSuiteNode"

section \<open>Test nodes\<close>

definition setOutcome ::
  "Tree \<Rightarrow> addr \<Rightarrow> TestOutcome \<Rightarrow> int option \<Rightarrow> jsstring option \<Rightarrow> jsstring option \<Rightarrow>
   jsstring option \<Rightarrow> jsstring option \<Rightarrow> jsstring option \<Rightarrow> jsstring option \<Rightarrow>
   (error + unit) \<times> Tree" where
  "setOutcome t a oc duration msg details expected actual expectedFile actualFile =
     (case deref t a of None \<Rightarrow> (Inl TypeError, t)
      | Some n \<Rightarrow>
          (case variant n of TestSuiteNode s \<Rightarrow> (Inl TypeError, t)
           | TestNode l \<Rightarrow>
               if outcome l \<noteq> None then (Inl OutcomeAlreadySet, t)
               else
                 (let l = l\<lparr>outcome := Some oc, durationMillis := duration, failureMsg := msg,
                            failureDetails := details, expectedStr := expected,
                            actualStr := actual, expectedFilePath := expectedFile,
                            actualFilePath := actualFile\<rparr>;
                      l = (if oc = SKIPPED \<and> \<not> truthy msg then
                             l\<lparr>failureMsg := Some (lit ''Pending test '' @ [0x27] @ name n
                                                     @ [0x27])\<rparr>
                           else l)
                  in (Inr (), updNode t a (\<lambda>n. n\<lparr>variant := TestNode l\<rparr>)))))"

definition setMetainfo :: "Tree \<Rightarrow> addr \<Rightarrow> jsstring option \<Rightarrow> (error + unit) \<times> Tree" where
  "setMetainfo t a m =
     (case deref t a of None \<Rightarrow> (Inl TypeError, t)
      | Some n \<Rightarrow>
          (case variant n of TestSuiteNode s \<Rightarrow> (Inl TypeError, t)
           | TestNode l \<Rightarrow>
               (Inr (), updNode t a (\<lambda>n. n\<lparr>variant := TestNode (l\<lparr>metainfo := m\<rparr>)\<rparr>))))"

text \<open>\<open>err\<close> is a string, or anything else (\<open>None\<close>): \<open>isString\<close> tells them apart.\<close>

definition addStdErr :: "Tree \<Rightarrow> addr \<Rightarrow> jsstring option \<Rightarrow> (error + unit) \<times> Tree" where
  "addStdErr t a err =
     (case deref t a of None \<Rightarrow> (Inl TypeError, t)
      | Some n \<Rightarrow>
          (case variant n of TestSuiteNode s \<Rightarrow> (Inl TypeError, t)
           | TestNode l \<Rightarrow>
               (case err of None \<Rightarrow> (Inr (), t)
                | Some e \<Rightarrow>
                    (Inr (), writeln t (lit ''##teamcity[testStdErr nodeId='' @ [0x27]
                       @ idToString (id_node n) @ [0x27] @ lit '' out='' @ [0x27]
                       @ escapeAttributeValue e @ [0x27] @ lit '']'')))))"

section \<open>Sequences of calls\<close>

text \<open>
  The public operations of a tree and of its nodes, as a caller can invoke them. A call
  that raises leaves the tree as it is at that point, and the caller may go on calling.
  \<open>onChildFinished\<close> is protected and only called by \<open>finish\<close>.
\<close>

datatype op =
    StartNotify
  | UpdateRootNode jsstring "jsstring option" "jsstring option"
  | AddTotalTestCount "int option"
  | TestingStarted
  | TestingFinished
  | Register addr
  | Start addr
  | Finish addr bool
  | FinishIfStarted addr
  | AddTestChild addr jsstring "jsstring option" "jsstring option"
  | AddTestSuiteChild addr jsstring "jsstring option" "jsstring option"
  | SetOutcome addr TestOutcome "int option" "jsstring option" "jsstring option"
      "jsstring option" "jsstring option" "jsstring option" "jsstring option"
  | SetMetainfo addr "jsstring option"
  | AddStdErr addr "jsstring option"

text \<open>The result of a call: the node it returns, if it returns one.\<close>

definition returning :: "(error + addr) \<times> Tree \<Rightarrow> (error + addr option) \<times> Tree" where
  "returning r = (case r of (Inl e, t) \<Rightarrow> (Inl e, t) | (Inr a, t) \<Rightarrow> (Inr (Some a), t))"

definition returningNothing :: "(error + unit) \<times> Tree \<Rightarrow> (error + addr option) \<times> Tree" where
  "returningNothing r = (case r of (Inl e, t) \<Rightarrow> (Inl e, t) | (Inr u, t) \<Rightarrow> (Inr None, t))"

text \<open>\<open>stack\<close> is the number of stack frames that a recursive descent may use.\<close>

fun call :: "nat \<Rightarrow> Tree \<Rightarrow> op \<Rightarrow> (error + addr option) \<times> Tree" where
  "call stack t StartNotify = (Inr None, startNotify t)"
| "call stack t (UpdateRootNode nm comment location) =
     (Inr None, updateRootNode t nm comment location)"
| "call stack t (AddTotalTestCount n) = (Inr None, addTotalTestCount t n)"
| "call stack t TestingStarted = (Inr None, testingStarted t)"
| "call stack t TestingFinished = (Inr None, testingFinished t)"
| "call stack t (Register a) = returningNothing (register t a)"
| "call stack t (Start a) = returningNothing (start t a)"
| "call stack t (Finish a finishParentIfLast) = returningNothing (finish t a finishParentIfLast)"
| "call stack t (FinishIfStarted a) = returningNothing (finishIfStarted stack t a)"
| "call stack t (AddTestChild a childName nodeType locPath) =
     returning (addTestChild t a childName nodeType locPath)"
| "call stack t (AddTestSuiteChild a childName nodeType locPath) =
     returning (addTestSuiteChild t a childName nodeType locPath)"
| "call stack t (SetOutcome a oc duration msg details expected actual expectedFile actualFile) =
     returningNothing
       (setOutcome t a oc duration msg details expected actual expectedFile actualFile)"
| "call stack t (SetMetainfo a m) = returningNothing (setMetainfo t a m)"
| "call stack t (AddStdErr a err) = returningNothing (addStdErr t a err)"

fun run :: "nat \<Rightarrow> Tree \<Rightarrow> op list \<Rightarrow> Tree" where
  "run stack t [] = t"
| "run stack t (c # cs) = run stack (snd (call stack t c)) cs"

text \<open>
  The ids that the calls of a sequence allocate: for every call that returns a new node,
  the value of the counter \<open>nextId\<close> that the call read and the id of the node.
\<close>

fun allocations :: "nat \<Rightarrow> Tree \<Rightarrow> op list \<Rightarrow> (nat \<times> node_id) list" where
  "allocations stack t [] = []"
| "allocations stack t (c # cs) =
     (case call stack t c of
        (Inr (Some a), t') \<Rightarrow>
          (case deref t' a of None \<Rightarrow> allocations stack t' cs
           | Some n \<Rightarrow> (nextId t, id_node n) # allocations stack t' cs)
      | (r, t') \<Rightarrow> allocations stack t' cs)"

section \<open>Example trees\<close>

text \<open>A tree with one suite under the root: as created, then started, then finished.\<close>

definition suiteTree :: Tree where
  "suiteTree = snd (addTestSuiteChild (newTree None) 0 (lit ''suite'') None None)"

definition startedTree :: Tree where
  "startedTree = snd (start suiteTree 1)"

definition finishedTree :: Tree where
  "finishedTree = snd (finish startedTree 1 False)"

text \<open>The suite with one test under it, before and after the test has got its outcome.\<close>

definition leafTree :: Tree where
  "leafTree = snd (addTestChild suiteTree 1 (lit ''leaf'') None None)"

definition leafTreeDone :: Tree where
  "leafTreeDone = snd (setOutcome leafTree 2 SUCCESS (Some 42) None None None None None None)"

text \<open>
  A started suite with three started tests that have their outcomes (\<open>threeReady\<close>),
  and the same after the first test has finished with propagation to the suite
  (\<open>threeLeaves\<close>).
\<close>

definition threeReadyCalls :: "op list" where
  "threeReadyCalls =
     [AddTestSuiteChild 0 (lit ''suite'') None None, Start 1,
      AddTestChild 1 (lit ''a'') None None, AddTestChild 1 (lit ''b'') None None,
      AddTestChild 1 (lit ''c'') None None, Start 2, Start 3, Start 4,
      SetOutcome 2 SUCCESS (Some 5) None None None None None None,
      SetOutcome 3 SUCCESS (Some 6) None None None None None None,
      SetOutcome 4 SUCCESS (Some 7) None None None None None None]"

definition threeReady :: Tree where
  "threeReady = run 0 (newTree None) threeReadyCalls"

definition threeLeavesCalls :: "op list" where
  "threeLeavesCalls = threeReadyCalls @ [Finish 2 True]"

definition threeLeaves :: Tree where
  "threeLeaves = run 0 (newTree None) threeLeavesCalls"

text \<open>
  Calls on a tree with the id prefix \<open>1\<close>: a suite, a test in it that finishes with
  propagation and so finishes the suite, a test that the finished suite refuses, and a
  test under the root.
\<close>

definition prefixedCalls :: "op list" where
  "prefixedCalls =
     [AddTestSuiteChild 0 (lit ''s'') None None, AddTestChild 1 (lit ''a'') None None,
      Start 1, Start 2, SetOutcome 2 SUCCESS (Some 42) None None None None None None,
      Finish 2 True, AddTestChild 1 (lit ''b'') None None,
      AddTestChild 0 (lit ''c'') None None]"

text \<open>
  The tree with three tests after the second test has finished with propagation, and the
  suite seen with \<open>k\<close> finished children.
\<close>

definition twoDone :: Tree where
  "twoDone = run 0 (newTree None) (threeLeavesCalls @ [Finish 3 True])"

definition runningLeaf :: Tree where
  "runningLeaf = snd (start leafTreeDone 2)"

definition threeLeavesSuite :: "nat \<Rightarrow> TestSuiteFields" where
  "threeLeavesSuite k = \<lparr>children = [2, 3, 4],
     lookupMap = [(lit ''a'', Single 2), (lit ''b'', Single 3), (lit ''c'', Single 4)],
     finishedChildCount = k\<rparr>"

section \<open>What finishing may change\<close>

text \<open>
  The relation between a tree before and after any number of \<open>finish\<close> steps: output
  is only appended, no node is added, a node that was registered or started may have become
  finished, the counter of finished children of a suite may have grown, and nothing else
  has changed.
\<close>

fun variantProgress :: "variant \<Rightarrow> variant \<Rightarrow> bool" where
  "variantProgress (TestSuiteNode s) (TestSuiteNode s') =
     (children s' = children s \<and> lookupMap s' = lookupMap s \<and>
      finishedChildCount s \<le> finishedChildCount s')"
| "variantProgress (TestNode l) (TestNode l') = (l' = l)"
| "variantProgress v v' = False"

definition nodeProgress :: "Node \<Rightarrow> Node \<Rightarrow> bool" where
  "nodeProgress n n' =
     (id_node n' = id_node n \<and> parent n' = parent n \<and> name n' = name n \<and>
      type_node n' = type_node n \<and> locationPath n' = locationPath n \<and>
      (state n' = state n \<or> state n' = FINISHED \<and> (state n = REGISTERED \<or> state n = STARTED)) \<and>
      variantProgress (variant n) (variant n'))"

definition treeProgress :: "Tree \<Rightarrow> Tree \<Rightarrow> bool" where
  "treeProgress t t' =
     (idPrefix t' = idPrefix t \<and> root t' = root t \<and> nextId t' = nextId t \<and>
      (\<exists>ys. written t' = written t @ ys) \<and>
      length (heap t') = length (heap t) \<and>
      (\<forall>x < length (heap t). nodeProgress (heap t ! x) (heap t' ! x)))"

section \<open>Steps of the automatic finish\<close>

text \<open>
  The message that \<open>getFinishMessage\<close> builds for a suite with the id \<open>i\<close>, and
  the tree after \<open>onChildFinished\<close> has incremented the counter of the suite at
  \<open>a\<close>, whose fields were \<open>s\<close>.
\<close>

definition suiteFinishMessage :: "node_id \<Rightarrow> jsstring" where
  "suiteFinishMessage i =
     lit ''##teamcity[testSuiteFinished nodeId='' @ [0x27] @ idToString i @ [0x27] @ lit '']''"

definition counted :: "Tree \<Rightarrow> addr \<Rightarrow> TestSuiteFields \<Rightarrow> Tree" where
  "counted t a s = updNode t a (\<lambda>n. n\<lparr>variant :=
      TestSuiteNode (s\<lparr>finishedChildCount := finishedChildCount s + 1\<rparr>)\<rparr>)"

text \<open>
  Finishing a list of nodes with propagation, one after the other, as a caller does that
  stops at the first exception; the line that \<open>finish\<close> writes for a node; whether
  \<open>finish\<close> accepts a node (it is registered or started and has a finish message);
  and the state of the node at an address.
\<close>

definition finishChildren :: "Tree \<Rightarrow> addr list \<Rightarrow> (error + unit) \<times> Tree" where
  "finishChildren = forEachChild (\<lambda>t c. finish t c True)"

definition finishLine :: "Tree \<Rightarrow> addr \<Rightarrow> jsstring" where
  "finishLine t c =
     (case deref t c of None \<Rightarrow> []
      | Some n \<Rightarrow> (case getFinishMessage n of Inl e \<Rightarrow> [] | Inr m \<Rightarrow> m @ [0x0A]))"

definition readyToFinish :: "Tree \<Rightarrow> addr \<Rightarrow> bool" where
  "readyToFinish t c =
     (case deref t c of None \<Rightarrow> False
      | Some n \<Rightarrow> (state n = REGISTERED \<or> state n = STARTED) \<and>
          (case getFinishMessage n of Inl e \<Rightarrow> False | Inr m \<Rightarrow> True))"

definition stateAt :: "Tree \<Rightarrow> addr \<Rightarrow> NodeState option" where
  "stateAt t a = map_option state (deref t a)"

text \<open>
  The number of children of a suite that are finished, and the children of the node at
  an address (none if it is no suite).
\<close>

definition finishedChildren :: "Tree \<Rightarrow> TestSuiteFields \<Rightarrow> nat" where
  "finishedChildren t sf = length (filter (\<lambda>c. stateAt t c = Some FINISHED) (children sf))"

definition childrenAt :: "Tree \<Rightarrow> addr \<Rightarrow> addr list" where
  "childrenAt t s =
     (case deref t s of None \<Rightarrow> []
      | Some n \<Rightarrow> (case variant n of TestSuiteNode sf \<Rightarrow> children sf | TestNode l \<Rightarrow> []))"

text \<open>
  A call finishes nodes without propagation if it is \<open>finish\<close> with a false
  argument (or none), or \<open>finishIfStarted\<close>. Such a call finishes a child of the
  suite at \<open>s\<close> silently if a child that was not finished before the call is
  finished after it. In a sequence of calls all children of \<open>s\<close> that have finished
  have finished with propagation if no call has finished one of them silently.
\<close>

fun withoutPropagation :: "op \<Rightarrow> bool" where
  "withoutPropagation (Finish a finishParentIfLast) = (\<not> finishParentIfLast)"
| "withoutPropagation (FinishIfStarted a) = True"
| "withoutPropagation other = False"

definition finishesSilently :: "nat \<Rightarrow> Tree \<Rightarrow> op \<Rightarrow> addr \<Rightarrow> bool" where
  "finishesSilently stack t c s =
     (withoutPropagation c \<and>
      (\<exists>x \<in> set (childrenAt t s).
         stateAt t x \<noteq> Some FINISHED \<and> stateAt (snd (call stack t c)) x = Some FINISHED))"

fun allPropagated :: "nat \<Rightarrow> Tree \<Rightarrow> op list \<Rightarrow> addr \<Rightarrow> bool" where
  "allPropagated stack t [] s = True"
| "allPropagated stack t (c # cs) s =
     (\<not> finishesSilently stack t c s \<and> allPropagated stack (snd (call stack t c)) cs s)"

section \<open>Trees built by calls\<close>

text \<open>
  What holds of every tree that calls have built from a new tree (\<open>wellFormed\<close>): the
  root is the first object, the counter is the number of objects, the node at address
  \<open>a\<close> has the id made from \<open>a\<close>, and the children of a suite are distinct later
  objects whose parent is the suite. Then no two nodes print the same id
  (\<open>uniqueIds\<close>). \<open>sameStructure\<close> relates two trees that differ in nothing that
  \<open>wellFormed\<close> looks at.
\<close>

definition uniqueIds :: "Tree \<Rightarrow> bool" where
  "uniqueIds t =
     (\<forall>a b. a < length (heap t) \<and> b < length (heap t) \<and>
        idToString (id_node (heap t ! a)) = idToString (id_node (heap t ! b)) \<longrightarrow> a = b)"

definition wellFormed :: "Tree \<Rightarrow> bool" where
  "wellFormed t =
     (root t = 0 \<and> nextId t = length (heap t) \<and> 0 < length (heap t) \<and>
      (\<forall>a < length (heap t).
         id_node (heap t ! a) = (if a = 0 then NumId 0 else makeChildId (idPrefix t) a)) \<and>
      (\<forall>a < length (heap t). \<forall>sf. variant (heap t ! a) = TestSuiteNode sf \<longrightarrow>
         distinct (children sf) \<and>
         (\<forall>c \<in> set (children sf). a < c \<and> c < length (heap t) \<and>
            parent (heap t ! c) = Some a)))"

definition sameStructure :: "Tree \<Rightarrow> Tree \<Rightarrow> bool" where
  "sameStructure t t' =
     (idPrefix t' = idPrefix t \<and> root t' = root t \<and> nextId t' = nextId t \<and>
      length (heap t') = length (heap t) \<and>
      (\<forall>a < length (heap t).
         id_node (heap t' ! a) = id_node (heap t ! a) \<and>
         parent (heap t' ! a) = parent (heap t ! a) \<and>
         (\<forall>sf'. variant (heap t' ! a) = TestSuiteNode sf' \<longrightarrow>
            (\<exists>sf. variant (heap t ! a) = TestSuiteNode sf \<and> children sf = children sf'))))"

section \<open>The counter of finished children\<close>

text \<open>
  By how much the finished children of the suite at \<open>s\<close> outnumber its counter
  (\<open>uncounted\<close>); that every node is among the children of its parent
  (\<open>wellLinked\<close>); what of a node the two look at (\<open>skeleton\<close>); and the
  relation of a tree to one after finish steps in which no counter has got ahead
  (\<open>keepsCount\<close>).
\<close>

definition uncounted :: "Tree \<Rightarrow> addr \<Rightarrow> int" where
  "uncounted t s =
     (case deref t s of None \<Rightarrow> 0
      | Some n \<Rightarrow>
          (case variant n of TestNode l \<Rightarrow> 0
           | TestSuiteNode sf \<Rightarrow> int (finishedChildren t sf) - int (finishedChildCount sf)))"

definition wellLinked :: "Tree \<Rightarrow> bool" where
  "wellLinked t =
     (\<forall>c < length (heap t). \<forall>p. parent (heap t ! c) = Some p \<longrightarrow> c \<in> set (childrenAt t p))"

definition skeleton ::
  "Tree \<Rightarrow> addr \<Rightarrow> (bool \<times> addr option \<times> (addr list \<times> nat) option) option" where
  "skeleton t a =
     map_option (\<lambda>n. (state n = FINISHED, parent n,
        (case variant n of TestSuiteNode sf \<Rightarrow> Some (children sf, finishedChildCount sf)
         | TestNode l \<Rightarrow> None))) (deref t a)"

definition keepsCount :: "addr \<Rightarrow> Tree \<Rightarrow> Tree \<Rightarrow> bool" where
  "keepsCount s t t' =
     (treeProgress t t' \<and> (wellFormed t \<and> wellLinked t \<longrightarrow> uncounted t s \<le> uncounted t' s))"

section \<open>The finish line of a suite\<close>

text \<open>
  The id that the node at an address has or will have (\<open>idAt\<close>), the line that a
  suite at that address writes when it finishes (\<open>suiteLine\<close>), whether the node at
  an address is a finished suite, and what holds of the output at every moment: that line
  has been written once if the suite is finished, and never otherwise (\<open>once\<close>).
  \<open>noSuiteLine\<close> relates a tree to a later one when what was written in between is
  the finish line of no suite.
\<close>

definition idAt :: "jsstring option \<Rightarrow> addr \<Rightarrow> node_id" where
  "idAt prefix a = (if a = 0 then NumId 0 else makeChildId prefix a)"

definition suiteLine :: "jsstring option \<Rightarrow> addr \<Rightarrow> jsstring" where
  "suiteLine prefix s = suiteFinishMessage (idAt prefix s) @ [0x0A]"

definition finishedSuite :: "Tree \<Rightarrow> addr \<Rightarrow> bool" where
  "finishedSuite t s = (isSuiteAt t s \<and> stateAt t s = Some FINISHED)"

definition once :: "Tree \<Rightarrow> addr \<Rightarrow> bool" where
  "once t s =
     (count_list (written t) (suiteLine (idPrefix t) s) = (if finishedSuite t s then 1 else 0))"

definition noSuiteLine :: "Tree \<Rightarrow> Tree \<Rightarrow> bool" where
  "noSuiteLine t t' =
     (idPrefix t' = idPrefix t \<and>
      (\<exists>ys. written t' = written t @ ys \<and> (\<forall>y \<in> set ys. \<forall>i. y \<noteq> suiteFinishMessage i @ [0x0A])))"

section \<open>Properties of the escaper\<close>

lemma escapeMappings_eq:
  "escapeMappings = Inr [(0x0A, lit ''n''), (0x0D, lit ''r''), (0x85, lit ''x''),
     (0x2028, lit ''l''), (0x2029, lit ''p''), (0x7C, lit ''|''), (0x27, [0x27]),
     (0x5B, lit ''[''), (0x5D, lit '']'')]"
  by (simp add: escapeMappings_def andThen_def addMapping_def lit_def)

lemma doEscapeCharCode_spec:
  "doEscapeCharCode c = map_option (\<lambda>s. [s]) (spec_substitute c)"
  by (simp add: doEscapeCharCode_def escapeMappings_eq spec_substitute_def lit_def)

lemma truthy_doEscapeCharCode:
  "truthy (doEscapeCharCode c) = (spec_substitute c \<noteq> None)"
  by (cases "spec_substitute c") (simp_all add: doEscapeCharCode_spec)

lemma spec_escape_Nil: "spec_escape str = [] \<longleftrightarrow> str = []"
  by (cases str) (auto simp: spec_escape_def spec_escape_char_def split: option.splits)

lemma spec_escape_Cons: "spec_escape (c # cs) = spec_escape_char c @ spec_escape cs"
  by (simp add: spec_escape_def)

lemma escapeLoop_spec: "escapeLoop str res = res @ spec_escape str"
  by (induction str arbitrary: res)
    (auto simp: spec_escape_def spec_escape_char_def truthy_doEscapeCharCode
      doEscapeCharCode_spec lit_def Let_def split: option.splits)

lemma not_needed_spec:
  "\<not> isAttributeValueEscapingNeeded str \<Longrightarrow> spec_escape str = str"
  by (induction str)
    (auto simp: spec_escape_def spec_escape_char_def truthy_doEscapeCharCode
      split: option.splits if_splits)

lemma needed_iff:
  "isAttributeValueEscapingNeeded str = (\<exists>c \<in> set str. spec_substitute c \<noteq> None)"
  by (induction str) (auto simp: truthy_doEscapeCharCode)

lemma escape_spec: "escapeAttributeValue str = spec_escape str"
  by (simp add: escapeAttributeValue_def escapeLoop_spec not_needed_spec)

lemma escapable_iff: "c \<in> escapable \<longleftrightarrow> spec_substitute c \<noteq> None"
  by (simp add: escapable_def spec_substitute_def)

lemma escape_identity:
  assumes "set str \<inter> escapable = {}"
  shows "escapeAttributeValue str = str"
proof -
  from assms have "\<not> isAttributeValueEscapingNeeded str"
    by (auto simp: needed_iff escapable_iff)
  then show ?thesis by (simp add: escapeAttributeValue_def)
qed

lemma original_substitute: "spec_substitute c = Some s \<Longrightarrow> spec_original s = Some c"
  by (auto simp: spec_substitute_def spec_original_def split: if_splits)

lemma decode_escape: "spec_decode (spec_escape str) = Some str"
proof (induction str)
  case Nil
  show ?case by (simp add: spec_escape_def)
next
  case (Cons c cs)
  show ?case
  proof (cases "spec_substitute c")
    case None
    then have ne: "c \<noteq> of_char CHR ''|''" by (auto simp: spec_substitute_def)
    show ?thesis
    proof (cases "spec_escape cs")
      case Nil
      then have "cs = []" by (simp add: spec_escape_Nil)
      with None show ?thesis by (simp add: spec_escape_def spec_escape_char_def)
    next
      case (Cons d ds)
      with Cons.IH None ne show ?thesis
        by (simp add: spec_escape_Cons spec_escape_char_def)
    qed
  next
    case (Some s)
    with Cons original_substitute[OF Some] show ?thesis
      by (simp add: spec_escape_Cons spec_escape_char_def)
  qed
qed

text \<open>
  C2. For every input string, \<open>escapeAttributeValue\<close> replaces every occurrence of one
  of the nine escapable characters by a pipe followed by its designated substitute and
  leaves every other character as it is; a string without an escapable character is
  returned as it is.
\<close>

theorem escape_replaces_each_escapable_char:
  "escapeAttributeValue str = concat (map spec_escape_char str) \<and>
   (set str \<inter> escapable = {} \<longrightarrow> escapeAttributeValue str = str)"
  using escape_identity[of str] by (simp add: escape_spec spec_escape_def)

theorem escape_replaces_each_escapable_char_witness:
  "escapeAttributeValue (lit ''a|b[0]'') = lit ''a||b|[0|]'' \<and>
   set (lit ''plain'') \<inter> escapable = {} \<and> escapeAttributeValue (lit ''plain'') = lit ''plain''"
proof -
  have h: "set (lit ''plain'') \<inter> escapable = {}"
    by (simp add: lit_def escapable_def)
  have "escapeAttributeValue (lit ''a|b[0]'') = lit ''a||b|[0|]''"
    using escape_replaces_each_escapable_char[of "lit ''a|b[0]''"]
    by (simp add: lit_def spec_escape_char_def spec_substitute_def)
  moreover have "escapeAttributeValue (lit ''plain'') = lit ''plain''"
    using escape_replaces_each_escapable_char[of "lit ''plain''"] h by blast
  ultimately show ?thesis using h by blast
qed

text \<open>
  C7. The escaped output decodes back to the original string under the two-character
  scheme, so escaping is injective; a string without an escapable character is returned
  as it is.
\<close>

theorem escape_decodes_back:
  "spec_decode (escapeAttributeValue str) = Some str \<and>
   (escapeAttributeValue str = escapeAttributeValue str' \<longrightarrow> str = str') \<and>
   (set str \<inter> escapable = {} \<longrightarrow> escapeAttributeValue str = str)"
proof -
  have dec: "spec_decode (escapeAttributeValue s) = Some s" for s
    by (simp add: escape_spec decode_escape)
  have "str = str'" if "escapeAttributeValue str = escapeAttributeValue str'"
  proof -
    from dec[of str] that have "spec_decode (escapeAttributeValue str') = Some str" by simp
    with dec[of str'] show ?thesis by simp
  qed
  with dec[of str] escape_identity[of str] show ?thesis by blast
qed

theorem escape_decodes_back_witness:
  "spec_decode (lit ''it|'s|n'') = Some (lit ''it'' @ [0x27] @ lit ''s'' @ [0x0A]) \<and>
   escapeAttributeValue (lit ''a|b'') \<noteq> escapeAttributeValue (lit ''a||b'') \<and>
   set (lit ''plain'') \<inter> escapable = {} \<and> escapeAttributeValue (lit ''plain'') = lit ''plain''"
proof -
  have h: "set (lit ''plain'') \<inter> escapable = {}"
    by (simp add: lit_def escapable_def)
  have e: "escapeAttributeValue (lit ''it'' @ [0x27] @ lit ''s'' @ [0x0A]) = lit ''it|'s|n''"
    by (simp add: escape_spec spec_escape_def spec_escape_char_def spec_substitute_def lit_def)
  have "spec_decode (lit ''it|'s|n'') = Some (lit ''it'' @ [0x27] @ lit ''s'' @ [0x0A])"
    using escape_decodes_back[of "lit ''it'' @ [0x27] @ lit ''s'' @ [0x0A]"] e by simp
  moreover have "escapeAttributeValue (lit ''a|b'') \<noteq> escapeAttributeValue (lit ''a||b'')"
    using escape_decodes_back[of "lit ''a|b''" "lit ''a||b''"] by (auto simp: lit_def)
  moreover have "escapeAttributeValue (lit ''plain'') = lit ''plain''"
    using escape_decodes_back[of "lit ''plain''"] h by blast
  ultimately show ?thesis using h by blast
qed

section \<open>Unfolding the operations\<close>

declare finish.simps [simp del] onChildFinished.simps [simp del]

lemma writeln_simps [simp]:
  "idPrefix (writeln t m) = idPrefix t" "root (writeln t m) = root t"
  "nextId (writeln t m) = nextId t" "heap (writeln t m) = heap t"
  "written (writeln t m) = written t @ [m @ [0x0A]]" "deref (writeln t m) a = deref t a"
  by (simp_all add: writeln_def deref_def)

lemma updNode_simps [simp]:
  "idPrefix (updNode t a f) = idPrefix t" "root (updNode t a f) = root t"
  "nextId (updNode t a f) = nextId t" "written (updNode t a f) = written t"
  "length (heap (updNode t a f)) = length (heap t)"
  "deref (updNode t a f) b = (if b = a then map_option f (deref t a) else deref t b)"
  by (simp_all add: updNode_def deref_def)

lemma setState_simps [simp]:
  "idPrefix (setState t a s) = idPrefix t" "root (setState t a s) = root t"
  "nextId (setState t a s) = nextId t" "written (setState t a s) = written t"
  "length (heap (setState t a s)) = length (heap t)"
  "deref (setState t a s) b =
     (if b = a then map_option (\<lambda>n. n\<lparr>state := s\<rparr>) (deref t a) else deref t b)"
  by (simp_all add: setState_def)

lemma deref_Some: "deref t a = Some n \<longleftrightarrow> a < length (heap t) \<and> heap t ! a = n"
  by (auto simp: deref_def)

lemma finish_root: "root t = a \<Longrightarrow> finish t a b = (Inr (), t)"
  by (subst finish.simps) simp

lemma finish_dangling: "root t \<noteq> a \<Longrightarrow> deref t a = None \<Longrightarrow> finish t a b = (Inl TypeError, t)"
  by (subst finish.simps) simp

lemma finish_bad_state:
  "root t \<noteq> a \<Longrightarrow> deref t a = Some n \<Longrightarrow> state n \<noteq> REGISTERED \<Longrightarrow> state n \<noteq> STARTED \<Longrightarrow>
   finish t a b = (Inl (UnexpectedNodeState (state n)), t)"
  by (subst finish.simps) simp

lemma finish_no_message:
  "root t \<noteq> a \<Longrightarrow> deref t a = Some n \<Longrightarrow> state n = REGISTERED \<or> state n = STARTED \<Longrightarrow>
   getFinishMessage n = Inl e \<Longrightarrow> finish t a b = (Inl e, t)"
  by (subst finish.simps) auto

lemma finish_step:
  "root t \<noteq> a \<Longrightarrow> deref t a = Some n \<Longrightarrow> state n = REGISTERED \<or> state n = STARTED \<Longrightarrow>
   getFinishMessage n = Inr msg \<Longrightarrow>
   finish t a b =
     (if b then
        (case parent n of None \<Rightarrow> (Inr (), setState (writeln t msg) a FINISHED)
         | Some p \<Rightarrow>
             if p \<noteq> root t then onChildFinished (setState (writeln t msg) a FINISHED) p
             else (Inr (), setState (writeln t msg) a FINISHED))
      else (Inr (), setState (writeln t msg) a FINISHED))"
  by (subst finish.simps) (auto simp: Let_def split: option.splits)

lemma onChildFinished_not_suite:
  "deref t a = None \<or> (\<exists>n l. deref t a = Some n \<and> variant n = TestNode l) \<Longrightarrow>
   onChildFinished t a = (Inl TypeError, t)"
  by (subst onChildFinished.simps) auto

lemma onChildFinished_step:
  "deref t a = Some n \<Longrightarrow> variant n = TestSuiteNode s \<Longrightarrow>
   onChildFinished t a =
     (if finishedChildCount s + 1 = length (children s) \<and> state n \<noteq> FINISHED then
        finish (updNode t a (\<lambda>n. n\<lparr>variant :=
            TestSuiteNode (s\<lparr>finishedChildCount := finishedChildCount s + 1\<rparr>)\<rparr>)) a True
      else (Inr (), updNode t a (\<lambda>n. n\<lparr>variant :=
            TestSuiteNode (s\<lparr>finishedChildCount := finishedChildCount s + 1\<rparr>)\<rparr>)))"
  by (subst onChildFinished.simps) (auto simp: Let_def)


section \<open>The frame of finish\<close>

lemma variantProgress_refl: "variantProgress v v"
  by (cases v) simp_all

lemma variantProgress_trans:
  "variantProgress v v' \<Longrightarrow> variantProgress v' v'' \<Longrightarrow> variantProgress v v''"
  by (cases v; cases v'; cases v'') simp_all

lemma nodeProgress_refl: "nodeProgress n n"
  by (simp add: nodeProgress_def variantProgress_refl)

lemma nodeProgress_trans:
  "nodeProgress n n' \<Longrightarrow> nodeProgress n' n'' \<Longrightarrow> nodeProgress n n''"
  unfolding nodeProgress_def using variantProgress_trans by auto

lemma treeProgress_refl: "treeProgress t t"
  by (simp add: treeProgress_def nodeProgress_refl)

lemma treeProgress_trans:
  assumes "treeProgress t t'" and "treeProgress t' t''"
  shows "treeProgress t t''"
proof -
  from assms have "\<forall>x < length (heap t). nodeProgress (heap t ! x) (heap t'' ! x)"
    unfolding treeProgress_def by (auto intro: nodeProgress_trans)
  moreover from assms have "\<exists>ys. written t'' = written t @ ys"
    unfolding treeProgress_def by auto
  ultimately show ?thesis using assms unfolding treeProgress_def by simp
qed

lemma treeProgress_writeln: "treeProgress t (writeln t s)"
  by (simp add: treeProgress_def nodeProgress_refl)

lemma treeProgress_updNode:
  assumes "deref t a = Some n" and "nodeProgress n (f n)"
  shows "treeProgress t (updNode t a f)"
  using assms
  by (auto simp: treeProgress_def updNode_def deref_Some nth_list_update nodeProgress_refl)

lemma treeProgress_finish_step:
  assumes "deref t a = Some n" and "state n = REGISTERED \<or> state n = STARTED"
  shows "treeProgress t (setState (writeln t msg) a FINISHED)"
proof -
  have "deref (writeln t msg) a = Some n" using assms by simp
  moreover have "nodeProgress n (n\<lparr>state := FINISHED\<rparr>)"
    using assms by (auto simp: nodeProgress_def variantProgress_refl)
  ultimately have "treeProgress (writeln t msg) (setState (writeln t msg) a FINISHED)"
    unfolding setState_def by (rule treeProgress_updNode)
  with treeProgress_writeln show ?thesis by (rule treeProgress_trans)
qed

lemma treeProgress_count_step:
  assumes "deref t a = Some n" and "variant n = TestSuiteNode s"
  shows "treeProgress t (updNode t a (\<lambda>n. n\<lparr>variant :=
            TestSuiteNode (s\<lparr>finishedChildCount := finishedChildCount s + 1\<rparr>)\<rparr>))"
  using assms by (intro treeProgress_updNode) (auto simp: nodeProgress_def)

lemma finish_progress:
  "treeProgress t (snd (finish t a b))"
  "treeProgress t (snd (onChildFinished t a))"
proof (induction t a b and t a rule: finish_onChildFinished.induct)
  case (1 t a b)
  show ?case
  proof (cases "root t \<noteq> a \<and> (\<exists>n. deref t a = Some n \<and> (state n = REGISTERED \<or> state n = STARTED)
                \<and> (\<exists>msg. getFinishMessage n = Inr msg))")
    case False
    then have "snd (finish t a b) = t"
      by (subst finish.simps) (auto split: option.splits sum.splits)
    then show ?thesis by (simp add: treeProgress_refl)
  next
    case True
    then obtain n msg where r: "root t \<noteq> a" and n: "deref t a = Some n"
      and st: "state n = REGISTERED \<or> state n = STARTED" and msg: "getFinishMessage n = Inr msg"
      by blast
    define t' where "t' = setState (writeln t msg) a FINISHED"
    have step: "treeProgress t t'"
      unfolding t'_def using n st by (rule treeProgress_finish_step)
    show ?thesis
    proof (cases "b \<and> (\<exists>p. parent n = Some p \<and> p \<noteq> root t')")
      case False
      then have "snd (finish t a b) = t'"
        using finish_step[OF r n st msg, of b] by (auto simp: t'_def split: option.splits)
      with step show ?thesis by simp
    next
      case True
      then obtain p where b and p: "parent n = Some p" "p \<noteq> root t'" by blast
      have "snd (finish t a b) = snd (onChildFinished t' p)"
        using finish_step[OF r n st msg, of b] \<open>b\<close> p by (auto simp: t'_def)
      moreover have "treeProgress t' (snd (onChildFinished t' p))"
        using "1.IH"[OF r n _ msg t'_def \<open>b\<close> p] st by auto
      ultimately show ?thesis using step by (auto intro: treeProgress_trans)
    qed
  qed
next
  case (2 t a)
  show ?case
  proof (cases "\<exists>n s. deref t a = Some n \<and> variant n = TestSuiteNode s")
    case False
    then have "snd (onChildFinished t a) = t"
      by (subst onChildFinished.simps) (auto split: option.splits variant.splits)
    then show ?thesis by (simp add: treeProgress_refl)
  next
    case True
    then obtain n s where n: "deref t a = Some n" and s: "variant n = TestSuiteNode s" by blast
    define t' where "t' = updNode t a (\<lambda>n. n\<lparr>variant :=
            TestSuiteNode (s\<lparr>finishedChildCount := finishedChildCount s + 1\<rparr>)\<rparr>)"
    have step: "treeProgress t t'"
      unfolding t'_def using n s by (rule treeProgress_count_step)
    show ?thesis
    proof (cases "finishedChildCount s + 1 = length (children s) \<and> state n \<noteq> FINISHED")
      case False
      then have "snd (onChildFinished t a) = t'"
        using onChildFinished_step[OF n s] by (auto simp: t'_def)
      with step show ?thesis by simp
    next
      case True
      then have "snd (onChildFinished t a) = snd (finish t' a True)"
        using onChildFinished_step[OF n s] by (auto simp: t'_def)
      moreover have "treeProgress t' (snd (finish t' a True))"
        using "2.IH"[OF n s t'_def] True by simp
      ultimately show ?thesis using step by (auto intro: treeProgress_trans)
    qed
  qed
qed


section \<open>Evaluating the example trees\<close>

lemmas build_defs = addTestChild_def addTestSuiteChild_def addChild_def newTree_def deref_def
   newTestSuiteNode_def newTestNode_def makeChildId_def updNode_def Let_def addChildNode_def
   getChildrenByName_def setProperty_def lit_def

lemma suiteTree_eq:
  "suiteTree = \<lparr>idPrefix = None, written = [], root = 0, nextId = 2,
     heap = [\<lparr>id_node = NumId 0, parent = None, name = lit ''hidden root'', type_node = None,
               locationPath = None, state = CREATED,
               variant = TestSuiteNode \<lparr>children = [1], lookupMap = [(lit ''suite'', Single 1)],
                 finishedChildCount = 0\<rparr>\<rparr>,
             \<lparr>id_node = NumId 1, parent = Some 0, name = lit ''suite'', type_node = None,
               locationPath = None, state = CREATED,
               variant = TestSuiteNode \<lparr>children = [], lookupMap = [],
                 finishedChildCount = 0\<rparr>\<rparr>]\<rparr>"
  by (simp add: suiteTree_def build_defs)

lemmas msg_defs = getStartMessage_def getInitMessage_def getStartCommandName_def
  getFinishMessage_def getFinishCommandName_def getExtraFinishMessageParameters_def
  metainfoOf_def booleanToString_def attr_def optAttr_def numberToString_def

lemma escape_plain [simp]: "escapeAttributeValue (lit ''suite'') = lit ''suite''"
  by (rule escape_identity) (simp add: lit_def escapable_def)

lemma startedTree_eq:
  "startedTree = setState (writeln suiteTree
      (lit ''##teamcity[testSuiteStarted nodeId='1' parentNodeId='0' name='suite' running='true']''))
      1 STARTED"
  unfolding startedTree_def
  by (simp add: start_def msg_defs suiteTree_eq deref_def) (simp add: lit_def)

lemma startedTree_node:
  "root startedTree = 0" "map_option state (deref startedTree 1) = Some STARTED"
  "map_option parent (deref startedTree 1) = Some (Some 0)"
  by (simp_all add: startedTree_eq) (simp_all add: suiteTree_eq deref_def)

lemma finishedTree_eq:
  "finishedTree = setState (writeln startedTree (lit ''##teamcity[testSuiteFinished nodeId='1']''))
      1 FINISHED"
proof -
  obtain n where n: "deref startedTree 1 = Some n" "state n = STARTED"
    and v: "getFinishMessage n = Inr (lit ''##teamcity[testSuiteFinished nodeId='1']'')"
    by (simp add: startedTree_eq suiteTree_eq deref_def msg_defs setState_def updNode_def writeln_def lit_def)
  show ?thesis unfolding finishedTree_def
    using finish_step[of startedTree 1 n _ False] n v by (simp add: startedTree_node)
qed

section \<open>Legal and illegal transitions\<close>

text \<open>
  C1, as the code has it. For every node but the root, \<open>finish\<close> in the state
  \<open>CREATED\<close> fails with an illegal-state error and changes nothing (on the root,
  \<open>finish\<close> returns at once in every state). For every node, \<open>start\<close> in the
  state \<open>FINISHED\<close> fails with an illegal-state error, \<open>start\<close> in the state
  \<open>STARTED\<close> does nothing, and \<open>start\<close> of a created or registered node writes
  exactly one message, after which a second \<open>start\<close> writes none.
\<close>

theorem finish_and_start_legality:
  assumes "deref t a = Some n"
  shows "(a \<noteq> root t \<and> state n = CREATED \<longrightarrow>
            finish t a b = (Inl (UnexpectedNodeState CREATED), t) \<and>
            isIllegalState (UnexpectedNodeState CREATED)) \<and>
         (state n = FINISHED \<longrightarrow>
            start t a = (Inl CannotStartFinishedNode, t) \<and>
            isIllegalState CannotStartFinishedNode) \<and>
         (state n = STARTED \<longrightarrow> start t a = (Inr (), t)) \<and>
         ((state n = CREATED \<or> state n = REGISTERED) \<and>
          (\<forall>p. parent n = Some p \<longrightarrow> deref t p \<noteq> None) \<longrightarrow>
            (\<exists>line. start t a = (Inr (), setState (t\<lparr>written := written t @ [line]\<rparr>) a STARTED)) \<and>
            start (snd (start t a)) a = (Inr (), snd (start t a)))"
proof (intro conjI impI)
  assume "a \<noteq> root t \<and> state n = CREATED"
  with assms show "finish t a b = (Inl (UnexpectedNodeState CREATED), t)"
    using finish_bad_state[of t a n b] by auto
next
  show "isIllegalState (UnexpectedNodeState CREATED)" by simp
next
  assume "state n = FINISHED"
  with assms show "start t a = (Inl CannotStartFinishedNode, t)" by (simp add: start_def)
next
  show "isIllegalState CannotStartFinishedNode" by simp
next
  assume "state n = STARTED"
  with assms show "start t a = (Inr (), t)" by (simp add: start_def)
next
  assume h: "(state n = CREATED \<or> state n = REGISTERED) \<and>
          (\<forall>p. parent n = Some p \<longrightarrow> deref t p \<noteq> None)"
  then obtain msg where msg: "getStartMessage t n = Inr msg"
    by (cases "parent n") (auto simp: getStartMessage_def getInitMessage_def Let_def)
  with assms h have st: "start t a = (Inr (), setState (writeln t msg) a STARTED)"
    by (auto simp: start_def)
  then show "\<exists>line. start t a = (Inr (), setState (t\<lparr>written := written t @ [line]\<rparr>) a STARTED)"
    by (auto simp: writeln_def)
  from assms show "start (snd (start t a)) a = (Inr (), snd (start t a))"
    unfolding st by (simp add: start_def)
qed


theorem finish_and_start_legality_witness:
  "finish suiteTree 1 False = (Inl (UnexpectedNodeState CREATED), suiteTree) \<and>
   start finishedTree 1 = (Inl CannotStartFinishedNode, finishedTree) \<and>
   start startedTree 1 = (Inr (), startedTree) \<and>
   (\<exists>line. start suiteTree 1 = (Inr (), setState (suiteTree\<lparr>written := written suiteTree @ [line]\<rparr>) 1 STARTED))"
proof -
  obtain n1 where n1: "deref suiteTree 1 = Some n1" "state n1 = CREATED" "parent n1 = Some 0"
    "root suiteTree = 0" "deref suiteTree 0 \<noteq> None"
    by (simp add: suiteTree_eq deref_def)
  obtain n2 where n2: "deref startedTree 1 = Some n2" "state n2 = STARTED"
    using startedTree_node by auto
  obtain n3 where n3: "deref finishedTree 1 = Some n3" "state n3 = FINISHED"
    using n2 by (auto simp: finishedTree_eq)
  from finish_and_start_legality[OF n1(1), of False] n1 finish_and_start_legality[OF n2(1)] n2 finish_and_start_legality[OF n3(1)] n3
  show ?thesis by simp
qed

text \<open>
  C1 as stated fails for the root, which is a node in the state \<open>CREATED\<close>:
  \<open>finish\<close> returns without an error.
\<close>

theorem finish_of_created_root_counterexample:
  "map_option state (deref (newTree None) (root (newTree None))) = Some CREATED \<and>
   finish (newTree None) (root (newTree None)) False = (Inr (), newTree None)"
  by (simp add: finish_root) (simp add: newTree_def deref_def newTestSuiteNode_def)


lemma leafTree_eq:
  "leafTree = \<lparr>idPrefix = None, written = [], root = 0, nextId = 3,
     heap = [\<lparr>id_node = NumId 0, parent = None, name = lit ''hidden root'', type_node = None,
               locationPath = None, state = CREATED,
               variant = TestSuiteNode \<lparr>children = [1], lookupMap = [(lit ''suite'', Single 1)],
                 finishedChildCount = 0\<rparr>\<rparr>,
             \<lparr>id_node = NumId 1, parent = Some 0, name = lit ''suite'', type_node = None,
               locationPath = None, state = CREATED,
               variant = TestSuiteNode \<lparr>children = [2], lookupMap = [(lit ''leaf'', Single 2)],
                 finishedChildCount = 0\<rparr>\<rparr>,
             newTestNode (NumId 2) (Some 1) (lit ''leaf'') None None]\<rparr>"
  unfolding leafTree_def suiteTree_eq
  by (simp add: addTestChild_def addChild_def deref_def updNode_def Let_def addChildNode_def
     getChildrenByName_def setProperty_def makeChildId_def) (simp add: lit_def)

lemma leafTreeDone_leaf:
  "deref leafTreeDone 2 = Some ((newTestNode (NumId 2) (Some 1) (lit ''leaf'') None None)
     \<lparr>variant := TestNode \<lparr>outcome = Some SUCCESS, durationMillis = Some 42, failureMsg = None,
        failureDetails = None, expectedStr = None, actualStr = None, expectedFilePath = None,
        actualFilePath = None, metainfo = None\<rparr>\<rparr>)"
  unfolding leafTreeDone_def leafTree_eq
  by (simp add: setOutcome_def deref_def updNode_def newTestNode_def)

section \<open>Test nodes: outcome and diagnostic output\<close>

text \<open>
  C5. On a test node whose outcome has been assigned, \<open>setOutcome\<close> fails with the
  already-set error and leaves the whole tree, and so every field of the node, as it was.
\<close>

theorem setOutcome_twice_fails:
  assumes "deref t a = Some n" and "variant n = TestNode l" and "outcome l \<noteq> None"
  shows "setOutcome t a oc duration msg details expected actual expectedFile actualFile
           = (Inl OutcomeAlreadySet, t) \<and> isAlreadySet OutcomeAlreadySet"
  using assms by (simp add: setOutcome_def)

theorem setOutcome_twice_fails_witness:
  "setOutcome leafTreeDone 2 FAILED (Some 7) (Some (lit ''late'')) None None None None None
     = (Inl OutcomeAlreadySet, leafTreeDone)"
  using setOutcome_twice_fails[OF leafTreeDone_leaf, of _ FAILED "Some 7" "Some (lit ''late'')"]
  by simp

text \<open>
  C8, as the code has it. On a test node in any state, \<open>addStdErr\<close> with a string,
  the empty string included, writes exactly one \<open>testStdErr\<close> message with the id of
  the node and the escaped text, and changes nothing else of the tree; with anything that
  is not a string it does nothing.
\<close>

theorem addStdErr_writes_one_message:
  assumes "deref t a = Some n" and "variant n = TestNode l"
  shows "addStdErr t a (Some e) = (Inr (), t\<lparr>written := written t @
           [lit ''##teamcity[testStdErr nodeId='' @ [0x27] @ idToString (id_node n) @ [0x27]
            @ lit '' out='' @ [0x27] @ escapeAttributeValue e @ [0x27] @ lit '']'' @ [0x0A]]\<rparr>) \<and>
         addStdErr t a None = (Inr (), t)"
  using assms by (simp add: addStdErr_def writeln_def)

theorem addStdErr_writes_one_message_witness:
  "addStdErr leafTreeDone 2 (Some (lit ''a|b'')) = (Inr (), leafTreeDone\<lparr>written := written leafTreeDone @
       [lit ''##teamcity[testStdErr nodeId='2' out='a||b']'' @ [0x0A]]\<rparr>) \<and>
   addStdErr leafTreeDone 2 None = (Inr (), leafTreeDone)"
proof -
  have "escapeAttributeValue (lit ''a|b'') = lit ''a||b''"
    by (simp add: escape_spec spec_escape_def spec_escape_char_def spec_substitute_def lit_def)
  then show ?thesis
    using addStdErr_writes_one_message[OF leafTreeDone_leaf, of _ "lit ''a|b''"]
    by (simp add: newTestNode_def) (simp add: lit_def)
qed

text \<open>
  C8 as stated fails for the empty text: a message is written, with an empty \<open>out\<close>.
\<close>

theorem addStdErr_empty_text_counterexample:
  "written (snd (addStdErr leafTree 2 (Some []))) =
     written leafTree @ [lit ''##teamcity[testStdErr nodeId='2' out='' @ [0x27, 0x27] @ lit '']'' @ [0x0A]]"
  unfolding leafTree_eq
  by (simp add: addStdErr_def deref_def newTestNode_def writeln_def escapeAttributeValue_def)
     (simp add: lit_def)

section \<open>The root\<close>

text \<open>
  C9. \<open>finish\<close> returns at once on the root, but \<open>start\<close> does not: started
  through the public field \<open>root\<close> of a new tree, the root writes a
  \<open>testSuiteStarted\<close> message with its own id 0 as \<open>nodeId\<close>.
\<close>

theorem root_start_writes_message:
  "id_node (heap (newTree None) ! root (newTree None)) = NumId 0 \<and>
   start (newTree None) (root (newTree None)) =
     (Inr (), setState (writeln (newTree None)
        (lit ''##teamcity[testSuiteStarted nodeId='0' parentNodeId='0' name='hidden root' running='true']''))
        0 STARTED)"
proof -
  have "escapeAttributeValue (lit ''hidden root'') = lit ''hidden root''"
    by (rule escape_identity) (simp add: lit_def escapable_def)
  then show ?thesis
    by (simp add: newTree_def start_def deref_def newTestSuiteNode_def msg_defs) (simp add: lit_def)
qed

section \<open>Literals and decimal digits\<close>

lemma unat_of_char16: "unat (of_char a :: 16 word) = of_char a"
proof -
  have "(of_char a :: nat) mod 256 = of_char a" by simp
  then have "(of_char a :: nat) < 256" by (metis mod_less_divisor zero_less_numeral)
  then have "(of_char a :: nat) < 65536" by linarith
  then have "(of_char a :: nat) < 2 ^ 16" by simp
  moreover have "(of_char a :: 16 word) = of_nat (of_char a)" by (simp add: of_nat_of_char)
  ultimately show ?thesis by (simp add: unat_of_nat take_bit_nat_eq_self)
qed

lemma of_char_word16_inj: "(of_char a :: 16 word) = of_char b \<longleftrightarrow> a = b"
proof
  assume "(of_char a :: 16 word) = of_char b"
  then have "unat (of_char a :: 16 word) = unat (of_char b :: 16 word)" by simp
  then have "(of_char a :: nat) = of_char b" by (simp only: unat_of_char16)
  then show "a = b" by simp
qed simp

lemma lit_eq_iff [simp]: "lit a = lit b \<longleftrightarrow> a = b"
  unfolding lit_def by (rule inj_map_eq_map) (simp add: inj_on_def of_char_word16_inj)

declare digitsOf.simps [simp del]

lemma digitValue_snoc: "digitValue (s @ [c]) = 10 * digitValue s + (unat c - 48)"
  by (simp add: digitValue_def)

lemma unat_digit: "d < 10 \<Longrightarrow> unat (of_nat (48 + d) :: 16 word) = 48 + d"
proof -
  assume "d < 10"
  then have "48 + d < 2 ^ 16" by simp
  then show ?thesis by (simp only: unat_of_nat take_bit_nat_eq_self len_of_numeral_defs) simp?
qed

lemma digitValue_digitsOf: "digitValue (digitsOf n) = n"
proof (induction n rule: digitsOf.induct)
  case (1 n)
  show ?case
  proof (cases "n < 10")
    case True
    then show ?thesis
      by (subst digitsOf.simps) (simp add: digitValue_def unat_digit del: of_nat_add)
  next
    case False
    have "digitValue (digitsOf n) = 10 * digitValue (digitsOf (n div 10)) + (unat (of_nat (48 + n mod 10) :: 16 word) - 48)"
      using False by (subst digitsOf.simps) (simp add: digitValue_snoc del: of_nat_add)
    also have "\<dots> = 10 * (n div 10) + n mod 10"
      using "1.IH"[OF False] by (simp add: unat_digit del: of_nat_add)
    finally show ?thesis by simp
  qed
qed

lemma digitsOf_inj: "digitsOf n = digitsOf m \<Longrightarrow> n = m"
  by (metis digitValue_digitsOf)

lemma digitsOf_nonempty: "digitsOf n \<noteq> []"
  by (subst digitsOf.simps) simp

lemma makeChildId_inj: "makeChildId prefix n = makeChildId prefix m \<Longrightarrow> n = m"
  by (cases prefix) (auto simp: makeChildId_def dest: digitsOf_inj)


lemma forEachChild_progress:
  assumes "\<And>t c. treeProgress t (snd (f t c))"
  shows "treeProgress t (snd (forEachChild f t cs))"
proof (induction cs arbitrary: t)
  case Nil
  show ?case by (simp add: treeProgress_refl)
next
  case (Cons c cs)
  obtain r t' where f: "f t c = (r, t')" by (cases "f t c")
  with assms[of t c] have p: "treeProgress t t'" by simp
  show ?case
  proof (cases r)
    case (Inl e)
    with f p show ?thesis by simp
  next
    case (Inr u)
    with f have "snd (forEachChild f t (c # cs)) = snd (forEachChild f t' cs)" by simp
    with p Cons.IH[of t'] show ?thesis by (auto intro: treeProgress_trans)
  qed
qed

lemma finishIfStarted_progress: "treeProgress t (snd (finishIfStarted depth t a))"
proof (induction depth arbitrary: t a)
  case 0
  show ?case by (simp add: treeProgress_refl)
next
  case (Suc depth)
  have loop: "treeProgress t (snd (forEachChild (finishIfStarted depth) t cs))" for cs
    by (rule forEachChild_progress) (rule Suc.IH)
  show ?case
  proof (cases "deref t a")
    case None
    then show ?thesis by (simp add: treeProgress_refl)
  next
    case (Some n)
    show ?thesis
    proof (cases "variant n")
      case (TestNode l)
      with Some show ?thesis by (simp add: treeProgress_refl)
    next
      case (TestSuiteNode s)
      obtain r t' where l: "forEachChild (finishIfStarted depth) t (children s) = (r, t')"
        by (cases "forEachChild (finishIfStarted depth) t (children s)")
      with loop[of "children s"] have p: "treeProgress t t'" by simp
      show ?thesis
      proof (cases r)
        case (Inl e)
        with Some TestSuiteNode l p show ?thesis by (simp add: treeProgress_refl)
      next
        case (Inr u)
        have "treeProgress t (snd (finish t' a False))"
          using p finish_progress(1)[of t' a False] by (rule treeProgress_trans)
        with Some TestSuiteNode l Inr show ?thesis by (simp add: treeProgress_refl)
      qed
    qed
  qed
qed

section \<open>Identity allocation\<close>

lemma treeProgress_ids:
  "treeProgress t t' \<Longrightarrow> idPrefix t' = idPrefix t \<and> nextId t' = nextId t"
  by (simp add: treeProgress_def)

lemma addChild_result:
  "addChild new t a nm ty loc = (r, t') \<Longrightarrow>
   idPrefix t' = idPrefix t \<and>
   (case r of Inl e \<Rightarrow> t' = t
    | Inr c \<Rightarrow> nextId t' = nextId t + 1 \<and> c = length (heap t) \<and>
        deref t' c = Some (new (makeChildId (idPrefix t) (nextId t)) (Some a) nm ty loc))"
  by (auto simp: addChild_def Let_def deref_Some updNode_def nth_append
      split: option.splits variant.splits if_splits)

lemma call_no_alloc:
  assumes "call st t c = (r, t')" and "\<forall>a. r \<noteq> Inr (Some a)"
  shows "idPrefix t' = idPrefix t \<and> nextId t' = nextId t"
proof (cases c)
  case (Finish a b)
  with assms treeProgress_ids[OF finish_progress(1), of t a b] show ?thesis
    by (auto simp: returningNothing_def split: prod.splits sum.splits)
next
  case (FinishIfStarted a)
  with assms treeProgress_ids[OF finishIfStarted_progress[where t=t and a=a and depth=st]] show ?thesis
    by (auto simp: returningNothing_def split: prod.splits sum.splits)
next
  case (AddTestChild a nm ty loc)
  with assms addChild_result[of newTestNode t a nm ty loc] show ?thesis
    by (auto simp: returning_def addTestChild_def split: prod.splits sum.splits)
next
  case (AddTestSuiteChild a nm ty loc)
  with assms addChild_result[of newTestSuiteNode t a nm ty loc] show ?thesis
    by (auto simp: returning_def addTestSuiteChild_def split: prod.splits sum.splits)
qed (use assms in \<open>auto simp: returningNothing_def startNotify_def updateRootNode_def
      addTotalTestCount_def testingStarted_def testingFinished_def register_def start_def
      setOutcome_def setMetainfo_def addStdErr_def Let_def
      split: prod.splits sum.splits option.splits variant.splits if_splits\<close>)

lemma call_alloc:
  assumes "call st t c = (Inr (Some a), t')"
  shows "idPrefix t' = idPrefix t \<and> nextId t' = nextId t + 1 \<and>
         (\<exists>n. deref t' a = Some n \<and> id_node n = makeChildId (idPrefix t) (nextId t))"
proof (cases c)
  case (AddTestChild s nm ty loc)
  with assms addChild_result[of newTestNode t s nm ty loc] show ?thesis
    by (auto simp: returning_def addTestChild_def newTestNode_def split: prod.splits sum.splits)
next
  case (AddTestSuiteChild s nm ty loc)
  with assms addChild_result[of newTestSuiteNode t s nm ty loc] show ?thesis
    by (auto simp: returning_def addTestSuiteChild_def newTestSuiteNode_def split: prod.splits sum.splits)
qed (use assms in \<open>auto simp: returningNothing_def split: prod.splits sum.splits\<close>)

lemma allocations_counted:
  "idPrefix (run st t cs) = idPrefix t \<and> nextId t \<le> nextId (run st t cs) \<and>
   allocations st t cs =
     map (\<lambda>n. (n, makeChildId (idPrefix t) n)) [nextId t ..< nextId (run st t cs)]"
proof (induction cs arbitrary: t)
  case Nil
  show ?case by simp
next
  case (Cons c cs)
  obtain r t' where c: "call st t c = (r, t')" by (cases "call st t c")
  show ?case
  proof (cases "\<exists>a. r = Inr (Some a)")
    case True
    then obtain a where r: "r = Inr (Some a)" by blast
    from call_alloc[OF c[unfolded r]] obtain n where
      t': "idPrefix t' = idPrefix t" "nextId t' = nextId t + 1"
      and n: "deref t' a = Some n" "id_node n = makeChildId (idPrefix t) (nextId t)" by blast
    from Cons.IH[of t'] t' have "nextId t < nextId (run st t' cs)" by simp
    then have "[nextId t ..< nextId (run st t' cs)] = nextId t # [nextId t' ..< nextId (run st t' cs)]"
      using t' by (simp add: upt_conv_Cons)
    with Cons.IH[of t'] c r t' n show ?thesis by simp
  next
    case False
    with call_no_alloc[OF c] have t': "idPrefix t' = idPrefix t" "nextId t' = nextId t" by auto
    from False have "allocations st t (c # cs) = allocations st t' cs"
      using c by (auto split: sum.splits option.splits)
    with Cons.IH[of t'] c t' show ?thesis by simp
  qed
qed

section \<open>Evaluating the tree with three tests\<close>

lemmas call_defs = returning_def returningNothing_def addTestChild_def addTestSuiteChild_def
  addChild_def deref_def newTestSuiteNode_def newTestNode_def makeChildId_def updNode_def Let_def
  addChildNode_def getChildrenByName_def setProperty_def start_def setOutcome_def setState_def
  writeln_def msg_defs finish.simps onChildFinished.simps

lemma escape_names [simp]:
  "escapeAttributeValue (lit ''a'') = lit ''a''" "escapeAttributeValue (lit ''b'') = lit ''b''"
  "escapeAttributeValue (lit ''c'') = lit ''c''"
  by (rule escape_identity, simp add: lit_def escapable_def)+

lemma digitsOf_digit: "n < 10 \<Longrightarrow> digitsOf n = [of_nat (48 + n)]"
  by (subst digitsOf.simps) simp

lemma threeLeaves_eq:
  "threeLeaves =
   \<lparr>idPrefix = None,
     written =
       [lit ''##teamcity[testSuiteStarted nodeId='1' parentNodeId='0' name='suite' running='true']'' @ [0x0A],
        lit ''##teamcity[testStarted nodeId='2' parentNodeId='1' name='a' running='true']'' @ [0x0A],
        lit ''##teamcity[testStarted nodeId='3' parentNodeId='1' name='b' running='true']'' @ [0x0A],
        lit ''##teamcity[testStarted nodeId='4' parentNodeId='1' name='c' running='true']'' @ [0x0A],
        lit ''##teamcity[testFinished nodeId='2' duration='5']'' @ [0x0A]],
     root = 0, nextId = 5,
     heap =
       [\<lparr>id_node = NumId 0, parent = None, name = lit ''hidden root'', type_node = None,
         locationPath = None, state = CREATED,
         variant = TestSuiteNode \<lparr>children = [1], lookupMap = [(lit ''suite'', Single 1)],
           finishedChildCount = 0\<rparr>\<rparr>,
        \<lparr>id_node = NumId 1, parent = Some 0, name = lit ''suite'', type_node = None,
         locationPath = None, state = STARTED,
         variant = TestSuiteNode \<lparr>children = [2, 3, 4], lookupMap = [(lit ''a'', Single 2), (lit ''b'', Single 3), (lit ''c'', Single 4)],
           finishedChildCount = 1\<rparr>\<rparr>,
        \<lparr>id_node = NumId 2, parent = Some 1, name = lit ''a'', type_node = None,
         locationPath = None, state = FINISHED,
         variant = TestNode \<lparr>outcome = Some SUCCESS, durationMillis = Some 5, failureMsg = None,
           failureDetails = None, expectedStr = None, actualStr = None,
           expectedFilePath = None, actualFilePath = None, metainfo = None\<rparr>\<rparr>,
        \<lparr>id_node = NumId 3, parent = Some 1, name = lit ''b'', type_node = None,
         locationPath = None, state = STARTED,
         variant = TestNode \<lparr>outcome = Some SUCCESS, durationMillis = Some 6, failureMsg = None,
           failureDetails = None, expectedStr = None, actualStr = None,
           expectedFilePath = None, actualFilePath = None, metainfo = None\<rparr>\<rparr>,
        \<lparr>id_node = NumId 4, parent = Some 1, name = lit ''c'', type_node = None,
         locationPath = None, state = STARTED,
         variant = TestNode \<lparr>outcome = Some SUCCESS, durationMillis = Some 7, failureMsg = None,
           failureDetails = None, expectedStr = None, actualStr = None,
           expectedFilePath = None, actualFilePath = None, metainfo = None\<rparr>\<rparr>]\<rparr>"
  unfolding threeLeaves_def threeLeavesCalls_def threeReadyCalls_def newTree_def
  by (simp add: call_defs digitsOf_digit) (simp add: lit_def)

section \<open>Forced termination\<close>

text \<open>
  C6. The suite of \<open>threeLeaves\<close> has three tests, of which the first is finished
  and the other two are started and have their outcomes. \<open>finishIfStarted\<close> on the
  suite skips the finished test and raises \<open>TypeError\<close> at the second one, whatever
  the stack allows: nothing is written and no node changes its state.
\<close>

theorem forced_finish_raises_on_unfinished_test:
  "finishIfStarted (Suc (Suc depth)) threeLeaves 1 = (Inl TypeError, threeLeaves)"
proof -
  have c2: "finishIfStarted (Suc depth) threeLeaves 2 = (Inr (), threeLeaves)"
    by (simp add: threeLeaves_eq deref_def)
  have c3: "finishIfStarted (Suc depth) threeLeaves 3 = (Inl TypeError, threeLeaves)"
    by (simp add: threeLeaves_eq deref_def)
  have "deref threeLeaves 1 = Some (heap threeLeaves ! 1)"
    "state (heap threeLeaves ! 1) = STARTED"
    "\<exists>sf. variant (heap threeLeaves ! 1) = TestSuiteNode sf \<and> children sf = [2, 3, 4]"
    by (simp_all add: deref_def threeLeaves_eq)
  then show ?thesis using c2 c3 by auto
qed

section \<open>Allocated ids\<close>

text \<open>
  C4. Along any sequence of calls on a tree, the calls that add a child read the
  consecutive values of the counter, in strictly increasing order, no id is allocated
  twice, and the id of the new node is the counter value itself or, with an id prefix, the
  string of the prefix, a hyphen and the decimal digits of the counter value.
\<close>

theorem allocated_ids_increase:
  "map fst (allocations stack t calls) = [nextId t ..< nextId t + length (allocations stack t calls)] \<and>
   nextId (run stack t calls) = nextId t + length (allocations stack t calls) \<and>
   sorted_wrt (<) (map fst (allocations stack t calls)) \<and>
   distinct (map snd (allocations stack t calls)) \<and>
   (idPrefix t = None \<longrightarrow>
      map snd (allocations stack t calls) = map NumId (map fst (allocations stack t calls))) \<and>
   (idPrefix t = Some prefix \<longrightarrow>
      map snd (allocations stack t calls) =
        map (\<lambda>n. StrId (prefix @ lit ''-'' @ digitsOf n)) (map fst (allocations stack t calls)))"
proof -
  let ?m = "nextId (run stack t calls)"
  from allocations_counted[of stack t calls]
  have le: "nextId t \<le> ?m"
    and al: "allocations stack t calls = map (\<lambda>n. (n, makeChildId (idPrefix t) n)) [nextId t ..< ?m]"
    by auto
  have len: "length (allocations stack t calls) = ?m - nextId t" by (subst al) simp
  have fst: "map fst (allocations stack t calls) = [nextId t ..< ?m]"
    by (subst al) (simp add: comp_def)
  have snd: "map snd (allocations stack t calls) = map (makeChildId (idPrefix t)) [nextId t ..< ?m]"
    by (subst al) (simp add: comp_def)
  have "inj_on (makeChildId (idPrefix t)) (set [nextId t ..< ?m])"
    by (rule inj_onI) (rule makeChildId_inj)
  then have "distinct (map snd (allocations stack t calls))"
    unfolding snd by (simp add: distinct_map)
  moreover have "sorted_wrt (<) (map fst (allocations stack t calls))"
    unfolding fst by simp
  ultimately show ?thesis
    using le len fst snd by (auto simp: makeChildId_def comp_def)
qed


lemma prefixed_nextId: "nextId (run 0 (newTree (Some (lit ''1''))) prefixedCalls) = 4"
  unfolding prefixedCalls_def newTree_def
  by (simp add: call_defs digitsOf_digit)

theorem allocated_ids_increase_witness:
  "idPrefix (newTree (Some (lit ''1''))) = Some (lit ''1'') \<and>
   allocations 0 (newTree (Some (lit ''1''))) prefixedCalls =
     [(1, StrId (lit ''1-1'')), (2, StrId (lit ''1-2'')), (3, StrId (lit ''1-3''))]"
proof -
  let ?t = "newTree (Some (lit ''1''))"
  let ?al = "allocations 0 ?t prefixedCalls"
  have p: "idPrefix ?t = Some (lit ''1'')" and n: "nextId ?t = 1"
    by (simp_all add: newTree_def)
  note th = allocated_ids_increase[of 0 ?t prefixedCalls "lit ''1''"]
  from th have "nextId (run 0 ?t prefixedCalls) = nextId ?t + length ?al" by blast
  with n prefixed_nextId have len: "length ?al = 3" by simp
  from th have "map fst ?al = [nextId ?t ..< nextId ?t + length ?al]" by blast
  with n have f: "map fst ?al = [1 ..< 1 + length ?al]" by simp
  from th p have s: "map snd ?al = map (\<lambda>n. StrId (lit ''1'' @ lit ''-'' @ digitsOf n)) (map fst ?al)"
    by blast
  from f len have f': "map fst ?al = [1, 2, 3]" by (simp add: upt_rec)
  have "map snd ?al = map (\<lambda>n. StrId (lit ''1'' @ lit ''-'' @ digitsOf n)) [1, 2, 3]"
    by (subst s, subst f') (rule refl)
  then have s': "map snd ?al = [StrId (lit ''1-1''), StrId (lit ''1-2''), StrId (lit ''1-3'')]"
    by (simp add: digitsOf_digit lit_def)
  have "?al = zip (map fst ?al) (map snd ?al)" by (simp add: zip_map_fst_snd)
  with f' s' p show ?thesis by simp
qed


section \<open>Finished nodes stay finished\<close>

lemma progress_keeps_finished:
  assumes "treeProgress t t'" and "deref t a = Some n" and "state n = FINISHED"
  shows "\<exists>n'. deref t' a = Some n' \<and> state n' = FINISHED"
  using assms by (auto simp: treeProgress_def nodeProgress_def deref_Some)

lemma getFinishMessage_suite:
  "variant n = TestSuiteNode s \<Longrightarrow> getFinishMessage n = Inr (suiteFinishMessage (id_node n))"
  by (simp add: getFinishMessage_def getFinishCommandName_def
      getExtraFinishMessageParameters_def suiteFinishMessage_def lit_def)

section \<open>Trees built by calls are well formed\<close>

lemma wellFormed_children:
  "wellFormed t \<Longrightarrow> a < length (heap t) \<Longrightarrow> variant (heap t ! a) = TestSuiteNode sf \<Longrightarrow>
   distinct (children sf) \<and>
   (\<forall>c \<in> set (children sf). a < c \<and> c < length (heap t) \<and> parent (heap t ! c) = Some a)"
  unfolding wellFormed_def by blast

lemma wellFormed_id:
  "wellFormed t \<Longrightarrow> a < length (heap t) \<Longrightarrow>
   id_node (heap t ! a) = (if a = 0 then NumId 0 else makeChildId (idPrefix t) a)"
  unfolding wellFormed_def by blast

lemma wellFormed_root:
  "wellFormed t \<Longrightarrow> root t = 0 \<and> nextId t = length (heap t) \<and> 0 < length (heap t)"
  unfolding wellFormed_def by blast

lemma wellFormed_sameStructure:
  assumes wf: "wellFormed t" and same: "sameStructure t t'"
  shows "wellFormed t'"
proof -
  from same have len: "length (heap t') = length (heap t)" and ids: "idPrefix t' = idPrefix t"
    "root t' = root t" "nextId t' = nextId t"
    by (simp_all add: sameStructure_def)
  have node: "id_node (heap t' ! a) = id_node (heap t ! a)" "parent (heap t' ! a) = parent (heap t ! a)"
    if "a < length (heap t)" for a
    using same that by (simp_all add: sameStructure_def)
  have kids: "\<exists>sf. variant (heap t ! a) = TestSuiteNode sf \<and> children sf = children sf'"
    if "a < length (heap t)" "variant (heap t' ! a) = TestSuiteNode sf'" for a sf'
    using same that by (simp add: sameStructure_def)
  have "distinct (children sf') \<and>
         (\<forall>c \<in> set (children sf'). a < c \<and> c < length (heap t') \<and> parent (heap t' ! c) = Some a)"
    if a: "a < length (heap t')" and v: "variant (heap t' ! a) = TestSuiteNode sf'" for a sf'
  proof -
    from a len have a': "a < length (heap t)" by simp
    from kids[OF a' v] obtain sf where sf: "variant (heap t ! a) = TestSuiteNode sf"
      and ch: "children sf = children sf'" by blast
    note w = wellFormed_children[OF wf a' sf]
    show ?thesis
    proof (intro conjI ballI)
      from w ch show "distinct (children sf')" by simp
    next
      fix c assume "c \<in> set (children sf')"
      with ch have c: "c \<in> set (children sf)" by simp
      with w have c': "a < c" "c < length (heap t)" "parent (heap t ! c) = Some a" by blast+
      from c' show "a < c" by simp
      from c' len show "c < length (heap t')" by simp
      from c' node(2)[of c] show "parent (heap t' ! c) = Some a" by simp
    qed
  qed
  moreover have "id_node (heap t' ! a) = (if a = 0 then NumId 0 else makeChildId (idPrefix t') a)"
    if "a < length (heap t')" for a
  proof -
    from that len have a': "a < length (heap t)" by simp
    from wellFormed_id[OF wf a'] node(1)[OF a'] ids show ?thesis by simp
  qed
  moreover have "root t' = 0 \<and> nextId t' = length (heap t') \<and> 0 < length (heap t')"
    using wellFormed_root[OF wf] len ids by simp
  ultimately show ?thesis unfolding wellFormed_def by blast
qed

lemma sameStructure_refl: "sameStructure t t"
  by (simp add: sameStructure_def)

lemma variantProgress_suite:
  "variantProgress v (TestSuiteNode sf') \<Longrightarrow>
   \<exists>sf. v = TestSuiteNode sf \<and> children sf = children sf'"
  by (cases v) simp_all

lemma sameStructure_progress:
  assumes "treeProgress t t'"
  shows "sameStructure t t'"
proof -
  have "id_node (heap t' ! b) = id_node (heap t ! b) \<and>
        parent (heap t' ! b) = parent (heap t ! b) \<and>
        (\<forall>sf'. variant (heap t' ! b) = TestSuiteNode sf' \<longrightarrow>
            (\<exists>sf. variant (heap t ! b) = TestSuiteNode sf \<and> children sf = children sf'))"
    if b: "b < length (heap t)" for b
  proof -
    from assms b have np: "nodeProgress (heap t ! b) (heap t' ! b)"
      by (simp add: treeProgress_def)
    then have "variantProgress (variant (heap t ! b)) (variant (heap t' ! b))"
      by (simp add: nodeProgress_def)
    then have "\<exists>sf. variant (heap t ! b) = TestSuiteNode sf \<and> children sf = children sf'"
      if "variant (heap t' ! b) = TestSuiteNode sf'" for sf'
      using that variantProgress_suite[of "variant (heap t ! b)" sf'] by simp
    with np show ?thesis by (simp add: nodeProgress_def)
  qed
  with assms show ?thesis by (simp add: sameStructure_def treeProgress_def)
qed

lemma sameStructure_written: "sameStructure t (writeln t m)"
  by (simp add: sameStructure_def)

lemma sameStructure_updNode:
  assumes f: "\<And>n. id_node (f n) = id_node n \<and> parent (f n) = parent n"
    and v: "\<And>n sf'. variant (f n) = TestSuiteNode sf' \<Longrightarrow>
           \<exists>sf. variant n = TestSuiteNode sf \<and> children sf = children sf'"
  shows "sameStructure t (updNode t a f)"
proof -
  have "id_node (heap (updNode t a f) ! b) = id_node (heap t ! b) \<and>
        parent (heap (updNode t a f) ! b) = parent (heap t ! b) \<and>
        (\<forall>sf'. variant (heap (updNode t a f) ! b) = TestSuiteNode sf' \<longrightarrow>
            (\<exists>sf. variant (heap t ! b) = TestSuiteNode sf \<and> children sf = children sf'))"
    if "b < length (heap t)" for b
  proof (cases "b = a")
    case True
    with that have "heap (updNode t a f) ! b = f (heap t ! b)" by (simp add: updNode_def)
    with f[of "heap t ! b"] v[of "heap t ! b"] show ?thesis by simp
  next
    case False
    then have "heap (updNode t a f) ! b = heap t ! b" by (simp add: updNode_def)
    then show ?thesis by simp
  qed
  then show ?thesis by (simp add: sameStructure_def)
qed

lemma sameStructure_trans:
  assumes 1: "sameStructure t t'" and 2: "sameStructure t' t''"
  shows "sameStructure t t''"
proof -
  from 1 2 have len: "length (heap t') = length (heap t)" "length (heap t'') = length (heap t)"
    by (simp_all add: sameStructure_def)
  have "id_node (heap t'' ! b) = id_node (heap t ! b) \<and>
        parent (heap t'' ! b) = parent (heap t ! b) \<and>
        (\<forall>sf''. variant (heap t'' ! b) = TestSuiteNode sf'' \<longrightarrow>
            (\<exists>sf. variant (heap t ! b) = TestSuiteNode sf \<and> children sf = children sf''))"
    if b: "b < length (heap t)" for b
  proof (intro conjI allI impI)
    from 1 2 b len show "id_node (heap t'' ! b) = id_node (heap t ! b)"
      by (simp add: sameStructure_def)
    from 1 2 b len show "parent (heap t'' ! b) = parent (heap t ! b)"
      by (simp add: sameStructure_def)
    fix sf'' assume "variant (heap t'' ! b) = TestSuiteNode sf''"
    moreover from 2 b len have "\<forall>sf''. variant (heap t'' ! b) = TestSuiteNode sf'' \<longrightarrow>
            (\<exists>sf. variant (heap t' ! b) = TestSuiteNode sf \<and> children sf = children sf'')"
      by (simp add: sameStructure_def)
    ultimately obtain sf' where sf': "variant (heap t' ! b) = TestSuiteNode sf'"
      "children sf' = children sf''" by blast
    moreover from 1 b have "\<forall>sf'. variant (heap t' ! b) = TestSuiteNode sf' \<longrightarrow>
            (\<exists>sf. variant (heap t ! b) = TestSuiteNode sf \<and> children sf = children sf')"
      by (simp add: sameStructure_def)
    ultimately obtain sf where "variant (heap t ! b) = TestSuiteNode sf" "children sf = children sf'"
      by blast
    with sf' show "\<exists>sf. variant (heap t ! b) = TestSuiteNode sf \<and> children sf = children sf''"
      by simp
  qed
  with 1 2 show ?thesis by (simp add: sameStructure_def)
qed

lemma children_addChildNode [simp]: "children (addChildNode sf nm c) = children sf"
  by (simp add: addChildNode_def split: option.splits lookup.splits)

lemma addChild_success:
  assumes "deref t a = Some n" and "variant n = TestSuiteNode s" and "state n \<noteq> FINISHED"
  shows "addChild new t a nm ty loc =
     (Inr (length (heap t)),
      t\<lparr>nextId := nextId t + 1,
        heap := (heap t @ [new (makeChildId (idPrefix t) (nextId t)) (Some a) nm ty loc])
          [a := n\<lparr>variant := TestSuiteNode
                 (addChildNode (s\<lparr>children := children s @ [length (heap t)]\<rparr>) nm
                    (length (heap t)))\<rparr>]\<rparr>)"
proof -
  from assms(1) have "a < length (heap t)" "heap t ! a = n" by (simp_all add: deref_Some)
  then show ?thesis using assms
    by (simp add: addChild_def Let_def updNode_def nth_append)
qed

lemma addChild_failure:
  assumes "deref t a = None \<or> (\<exists>n. deref t a = Some n \<and>
             ((\<exists>l. variant n = TestNode l) \<or> state n = FINISHED))"
  shows "snd (addChild new t a nm ty loc) = t"
  using assms by (auto simp: addChild_def split: option.splits variant.splits)

lemma addChild_wellFormed:
  assumes wf: "wellFormed t"
    and new: "\<And>i p. id_node (new i p nm ty loc) = i \<and> parent (new i p nm ty loc) = p \<and>
                (\<forall>sf. variant (new i p nm ty loc) = TestSuiteNode sf \<longrightarrow> children sf = [])"
  shows "wellFormed (snd (addChild new t a nm ty loc))"
proof (cases "\<exists>n s. deref t a = Some n \<and> variant n = TestSuiteNode s \<and> state n \<noteq> FINISHED")
  case False
  then have "snd (addChild new t a nm ty loc) = t"
    by (intro addChild_failure) (metis option.exhaust variant.exhaust)
  with wf show ?thesis by simp
next
  case True
  then obtain n s where n: "deref t a = Some n" and s: "variant n = TestSuiteNode s"
    and st: "state n \<noteq> FINISHED" by blast
  define c where "c = length (heap t)"
  define child where "child = new (makeChildId (idPrefix t) (nextId t)) (Some a) nm ty loc"
  define n' where "n' = n\<lparr>variant := TestSuiteNode (addChildNode (s\<lparr>children := children s @ [c]\<rparr>) nm c)\<rparr>"
  define t' where "t' = t\<lparr>nextId := nextId t + 1, heap := (heap t @ [child])[a := n']\<rparr>"
  have res: "snd (addChild new t a nm ty loc) = t'"
    using addChild_success[OF n s st, of new nm ty loc] by (simp add: t'_def n'_def child_def c_def)
  from n have a: "a < c" and na: "heap t ! a = n" by (simp_all add: deref_Some c_def)
  note r = wellFormed_root[OF wf]
  have len: "length (heap t') = Suc c" by (simp add: t'_def c_def)
  have nth: "heap t' ! b = (if b = a then n' else if b = c then child else heap t ! b)"
    if "b < Suc c" for b
    using that a by (auto simp: t'_def c_def nth_list_update nth_append)
  from n have a': "a < length (heap t)" by (simp add: deref_Some)
  have vs: "variant (heap t ! a) = TestSuiteNode s" by (simp only: na s)
  note old = wellFormed_children[OF wf a' vs, folded c_def]
  have ids: "id_node (heap t' ! b) = (if b = 0 then NumId 0 else makeChildId (idPrefix t') b)"
    if b: "b < length (heap t')" for b
  proof -
    from b len have b': "b < Suc c" by simp
    consider "b = a" | "b = c" | "b \<noteq> a" "b < c" using b' by linarith
    then show ?thesis
    proof cases
      case 1
      with nth[OF b'] have "id_node (heap t' ! b) = id_node (heap t ! a)" by (simp add: n'_def na)
      with wellFormed_id[OF wf a'] 1 show ?thesis by (simp add: t'_def)
    next
      case 2
      with a nth[OF b'] have "id_node (heap t' ! b) = makeChildId (idPrefix t) (nextId t)"
        by (simp add: child_def new)
      with r 2 a show ?thesis by (simp add: c_def t'_def)
    next
      case 3
      with nth[OF b'] have "heap t' ! b = heap t ! b" by simp
      moreover from 3 have "b < length (heap t)" by (simp add: c_def)
      ultimately show ?thesis using wellFormed_id[OF wf, of b] by (simp add: t'_def)
    qed
  qed
  have par: "parent (heap t' ! x) = parent (heap t ! x)" if "x < c" for x
    using nth[of x] that by (simp add: n'_def na)
  have kids: "distinct (children sf) \<and>
         (\<forall>x \<in> set (children sf). b < x \<and> x < length (heap t') \<and> parent (heap t' ! x) = Some b)"
    if b: "b < length (heap t')" and v: "variant (heap t' ! b) = TestSuiteNode sf" for b sf
  proof -
    from b len have b': "b < Suc c" by simp
    consider "b = a" | "b = c" | "b \<noteq> a" "b < c" using b' by linarith
    then show ?thesis
    proof cases
      case 1
      with nth[OF b'] v have ch: "children sf = children s @ [c]" by (auto simp: n'_def)
      have pc: "parent (heap t' ! c) = Some a" using nth[of c] a by (simp add: child_def new)
      show ?thesis unfolding ch
      proof (rule conjI, goal_cases)
        case 1
        from old show "distinct (children s @ [c])" by auto
      next
        case 2
        show ?case
        proof (rule ballI)
        fix x assume "x \<in> set (children s @ [c])"
        then consider "x \<in> set (children s)" | "x = c" by auto
        then show "b < x \<and> x < length (heap t') \<and> parent (heap t' ! x) = Some b"
        proof cases
          case 1
          with old have "a < x" "x < c" "parent (heap t ! x) = Some a" by blast+
          with par[of x] len \<open>b = a\<close> show ?thesis by simp
        next
          case 2
          with a pc len \<open>b = a\<close> show ?thesis by simp
        qed
        qed
      qed
    next
      case 2
      with nth[OF b'] a v have "variant child = TestSuiteNode sf" by simp
      then have "children sf = []" using new by (simp add: child_def)
      then show ?thesis by simp
    next
      case 3
      with nth[OF b'] v have v': "variant (heap t ! b) = TestSuiteNode sf" by simp
      from 3 have b'': "b < length (heap t)" by (simp add: c_def)
      note w = wellFormed_children[OF wf b'' v', folded c_def]
      show ?thesis
      proof (rule conjI, goal_cases)
        case 1
        from w show "distinct (children sf)" by simp
      next
        case 2
        show ?case
        proof (rule ballI)
          fix x assume "x \<in> set (children sf)"
          with w have "b < x" "x < c" "parent (heap t ! x) = Some b" by blast+
          with par[of x] len show "b < x \<and> x < length (heap t') \<and> parent (heap t' ! x) = Some b"
            by simp
        qed
      qed
    qed
  qed
  have "root t' = 0 \<and> nextId t' = length (heap t') \<and> 0 < length (heap t')"
    using r len by (simp add: t'_def c_def)
  with ids kids have "wellFormed t'" unfolding wellFormed_def by blast
  with res show ?thesis by simp
qed

lemma sameStructure_setState: "sameStructure t (setState t a s)"
  unfolding setState_def by (rule sameStructure_updNode) simp_all

lemma sameStructure_setState_writeln: "sameStructure t (setState (writeln t m) a s)"
  by (rule sameStructure_trans[OF sameStructure_written sameStructure_setState])

lemma register_sameStructure: "sameStructure t (snd (register t a))"
  by (auto simp: register_def sameStructure_refl sameStructure_setState_writeln
      split: option.splits sum.splits)

lemma start_sameStructure: "sameStructure t (snd (start t a))"
  by (auto simp: start_def sameStructure_refl sameStructure_setState_writeln
      split: option.splits sum.splits)

lemma setOutcome_sameStructure:
  "sameStructure t (snd (setOutcome t a oc d m ds e ac ef af))"
  by (auto simp: setOutcome_def Let_def sameStructure_refl
      split: option.splits variant.splits intro!: sameStructure_updNode)

lemma setMetainfo_sameStructure: "sameStructure t (snd (setMetainfo t a m))"
  by (auto simp: setMetainfo_def sameStructure_refl
      split: option.splits variant.splits intro!: sameStructure_updNode)

lemma addStdErr_sameStructure: "sameStructure t (snd (addStdErr t a e))"
  by (auto simp: addStdErr_def sameStructure_refl sameStructure_written
      split: option.splits variant.splits)

lemma snd_returning [simp]: "snd (returning r) = snd r" "snd (returningNothing q) = snd q"
  by (auto simp: returning_def returningNothing_def split: prod.splits sum.splits)

lemma call_wellFormed:
  assumes "wellFormed t"
  shows "wellFormed (snd (call st t c))"
proof (cases c)
  case (AddTestChild a nm ty loc)
  have "wellFormed (snd (addChild newTestNode t a nm ty loc))"
    using assms by (rule addChild_wellFormed) (simp add: newTestNode_def)
  with AddTestChild show ?thesis
    by (simp add: addTestChild_def)
next
  case (AddTestSuiteChild a nm ty loc)
  have "wellFormed (snd (addChild newTestSuiteNode t a nm ty loc))"
    using assms by (rule addChild_wellFormed) (simp add: newTestSuiteNode_def)
  with AddTestSuiteChild show ?thesis
    by (simp add: addTestSuiteChild_def)
next
  case (Finish a b)
  have "sameStructure t (snd (finish t a b))"
    by (rule sameStructure_progress) (rule finish_progress)
  with assms Finish show ?thesis
    by (auto dest: wellFormed_sameStructure)
next
  case (FinishIfStarted a)
  have "sameStructure t (snd (finishIfStarted st t a))"
    by (rule sameStructure_progress) (rule finishIfStarted_progress)
  with assms FinishIfStarted show ?thesis
    by (auto dest: wellFormed_sameStructure)
next
  case (Register a)
  with assms register_sameStructure[of t a] show ?thesis
    by (auto dest: wellFormed_sameStructure)
next
  case (Start a)
  with assms start_sameStructure[of t a] show ?thesis
    by (auto dest: wellFormed_sameStructure)
next
  case (SetOutcome a oc d m ds e ac ef af)
  with assms setOutcome_sameStructure[of t a oc d m ds e ac ef af] show ?thesis
    by (auto dest: wellFormed_sameStructure)
next
  case (SetMetainfo a m)
  with assms setMetainfo_sameStructure[of t a m] show ?thesis
    by (auto dest: wellFormed_sameStructure)
next
  case (AddStdErr a e)
  with assms addStdErr_sameStructure[of t a e] show ?thesis
    by (auto dest: wellFormed_sameStructure)
qed (use assms in \<open>auto simp: startNotify_def updateRootNode_def addTotalTestCount_def
      testingStarted_def testingFinished_def Let_def
      split: option.splits intro: wellFormed_sameStructure[OF _ sameStructure_written]\<close>)

lemma run_wellFormed: "wellFormed t \<Longrightarrow> wellFormed (run st t cs)"
  by (induction cs arbitrary: t) (simp_all add: call_wellFormed)

lemma newTree_wellFormed: "wellFormed (newTree prefix)"
  by (simp add: wellFormed_def newTree_def newTestSuiteNode_def)

lemma wellFormed_uniqueIds:
  assumes wf: "wellFormed t"
  shows "uniqueIds t"
proof -
  have zero: "idToString (NumId 0) \<noteq> idToString (makeChildId (idPrefix t) b)" if "b \<noteq> 0" for b
  proof (cases "idPrefix t")
    case None
    with that show ?thesis using digitsOf_inj[of 0 b] by (auto simp: makeChildId_def)
  next
    case (Some p)
    have "length (digitsOf 0) = 1" by (subst digitsOf.simps) simp
    moreover have "length (p @ lit ''-'' @ digitsOf b) \<ge> 2"
      using digitsOf_nonempty[of b] by (cases "digitsOf b") (simp_all add: lit_def)
    ultimately show ?thesis using Some by (auto simp: makeChildId_def)
  qed
  have "a = b" if a: "a < length (heap t)" and b: "b < length (heap t)"
    and eq: "idToString (id_node (heap t ! a)) = idToString (id_node (heap t ! b))" for a b
  proof (cases "a = 0 \<or> b = 0")
    case True
    with eq wellFormed_id[OF wf a] wellFormed_id[OF wf b] zero[of a] zero[of b]
    show ?thesis by (cases "a = 0"; cases "b = 0") auto
  next
    case False
    with eq wellFormed_id[OF wf a] wellFormed_id[OF wf b]
    have "idToString (makeChildId (idPrefix t) a) = idToString (makeChildId (idPrefix t) b)"
      by simp
    then show ?thesis
      by (cases "idPrefix t") (auto simp: makeChildId_def dest: digitsOf_inj)
  qed
  then show ?thesis unfolding uniqueIds_def by blast
qed

section \<open>A finished suite writes no second finish message\<close>

lemma uniqueIds_progress:
  assumes "treeProgress t t'" and "uniqueIds t"
  shows "uniqueIds t'"
proof -
  from assms(1) have len: "length (heap t') = length (heap t)"
    and ids: "\<And>a. a < length (heap t) \<Longrightarrow> id_node (heap t' ! a) = id_node (heap t ! a)"
    by (simp_all add: treeProgress_def nodeProgress_def)
  show ?thesis unfolding uniqueIds_def
  proof (intro allI impI)
    fix a b
    assume h: "a < length (heap t') \<and> b < length (heap t') \<and>
       idToString (id_node (heap t' ! a)) = idToString (id_node (heap t' ! b))"
    with len ids[of a] ids[of b] have "a < length (heap t) \<and> b < length (heap t) \<and>
       idToString (id_node (heap t ! a)) = idToString (id_node (heap t ! b))" by simp
    with assms(2) show "a = b" unfolding uniqueIds_def by blast
  qed
qed

lemma suiteFinishMessage_inj:
  "suiteFinishMessage i = suiteFinishMessage j \<Longrightarrow> idToString i = idToString j"
  by (simp add: suiteFinishMessage_def)

lemma suiteFinishMessage_nth: "suiteFinishMessage i ! 15 = of_char CHR ''S''"
  by (simp add: suiteFinishMessage_def lit_def)

lemma leaf_message_differs:
  assumes "variant n = TestNode l" and "getFinishMessage n = Inr msg"
  shows "msg \<noteq> suiteFinishMessage i"
proof -
  from assms have "msg ! 15 = of_char CHR ''F'' \<or> msg ! 15 = of_char CHR ''I''"
    by (auto simp: getFinishMessage_def getFinishCommandName_def Let_def lit_def
        split: option.splits TestOutcome.splits)
  with suiteFinishMessage_nth[of i] show ?thesis by auto
qed

lemma finish_keeps_line_count:
  "uniqueIds t \<Longrightarrow> deref t x = Some xn \<Longrightarrow> state xn = FINISHED \<Longrightarrow>
   count_list (written (snd (finish t a b))) (suiteFinishMessage (id_node xn) @ [0x0A]) =
   count_list (written t) (suiteFinishMessage (id_node xn) @ [0x0A])"
  "uniqueIds t \<Longrightarrow> deref t x = Some xn \<Longrightarrow> state xn = FINISHED \<Longrightarrow>
   count_list (written (snd (onChildFinished t a))) (suiteFinishMessage (id_node xn) @ [0x0A]) =
   count_list (written t) (suiteFinishMessage (id_node xn) @ [0x0A])"
proof (induction t a b and t a arbitrary: xn and xn rule: finish_onChildFinished.induct)
  case (1 t a b)
  let ?L = "suiteFinishMessage (id_node xn) @ [0x0A]"
  show ?case
  proof (cases "root t \<noteq> a \<and> (\<exists>n. deref t a = Some n \<and> (state n = REGISTERED \<or> state n = STARTED)
                \<and> (\<exists>msg. getFinishMessage n = Inr msg))")
    case False
    then have "snd (finish t a b) = t"
      by (subst finish.simps) (auto split: option.splits sum.splits)
    then show ?thesis by simp
  next
    case True
    then obtain n msg where r: "root t \<noteq> a" and n: "deref t a = Some n"
      and st: "state n = REGISTERED \<or> state n = STARTED" and msg: "getFinishMessage n = Inr msg"
      by blast
    define t' where "t' = setState (writeln t msg) a FINISHED"
    from n st "1.prems" have ax: "a \<noteq> x" by auto
    have differs: "msg \<noteq> suiteFinishMessage (id_node xn)"
    proof (cases "variant n")
      case (TestNode l)
      then show ?thesis using msg by (rule leaf_message_differs)
    next
      case (TestSuiteNode s)
      with msg have m: "msg = suiteFinishMessage (id_node n)"
        by (simp add: getFinishMessage_suite)
      show ?thesis
      proof
        assume "msg = suiteFinishMessage (id_node xn)"
        then have "suiteFinishMessage (id_node n) = suiteFinishMessage (id_node xn)"
          unfolding m .
        then have "idToString (id_node n) = idToString (id_node xn)"
          by (rule suiteFinishMessage_inj)
        with n "1.prems"(1,2) have "a = x"
          unfolding uniqueIds_def deref_Some by blast
        with ax show False by simp
      qed
    qed
    have w: "count_list (written t') ?L = count_list (written t) ?L"
      using differs by (simp add: t'_def)
    have u: "uniqueIds t'"
      using treeProgress_finish_step[OF n st] "1.prems"(1) unfolding t'_def
      by (rule uniqueIds_progress)
    have x': "deref t' x = Some xn" using ax "1.prems"(2) by (simp add: t'_def)
    show ?thesis
    proof (cases "b \<and> (\<exists>p. parent n = Some p \<and> p \<noteq> root t')")
      case False
      then have "snd (finish t a b) = t'"
        using finish_step[OF r n st msg, of b] by (auto simp: t'_def split: option.splits)
      with w show ?thesis by simp
    next
      case True
      then obtain p where b and p: "parent n = Some p" "p \<noteq> root t'" by blast
      have "snd (finish t a b) = snd (onChildFinished t' p)"
        using finish_step[OF r n st msg, of b] \<open>b\<close> p by (auto simp: t'_def)
      moreover have "count_list (written (snd (onChildFinished t' p))) ?L = count_list (written t') ?L"
        using "1.IH"[OF r n _ msg t'_def \<open>b\<close> p u x' "1.prems"(3)] st by auto
      ultimately show ?thesis using w by simp
    qed
  qed
next
  case (2 t a)
  let ?L = "suiteFinishMessage (id_node xn) @ [0x0A]"
  show ?case
  proof (cases "\<exists>n s. deref t a = Some n \<and> variant n = TestSuiteNode s")
    case False
    then have "snd (onChildFinished t a) = t"
      by (subst onChildFinished.simps) (auto split: option.splits variant.splits)
    then show ?thesis by simp
  next
    case True
    then obtain n s where n: "deref t a = Some n" and s: "variant n = TestSuiteNode s" by blast
    define t' where "t' = updNode t a (\<lambda>n. n\<lparr>variant :=
            TestSuiteNode (s\<lparr>finishedChildCount := finishedChildCount s + 1\<rparr>)\<rparr>)"
    have w: "written t' = written t" by (simp add: t'_def)
    have u: "uniqueIds t'"
      using treeProgress_count_step[OF n s] "2.prems"(1) unfolding t'_def
      by (rule uniqueIds_progress)
    obtain xn' where x': "deref t' x = Some xn'" "state xn' = FINISHED" "id_node xn' = id_node xn"
      using "2.prems"(2,3) by (cases "x = a") (auto simp: t'_def)
    show ?thesis
    proof (cases "finishedChildCount s + 1 = length (children s) \<and> state n \<noteq> FINISHED")
      case False
      then have "snd (onChildFinished t a) = t'"
        using onChildFinished_step[OF n s] by (auto simp: t'_def)
      with w show ?thesis by simp
    next
      case True
      then have "snd (onChildFinished t a) = snd (finish t' a True)"
        using onChildFinished_step[OF n s] by (auto simp: t'_def)
      moreover have "count_list (written (snd (finish t' a True))) ?L = count_list (written t') ?L"
        using "2.IH"[OF n s t'_def _ _ u x'(1,2)] True x'(3) by simp
      ultimately show ?thesis using w by simp
    qed
  qed
qed

lemma written_progress: "treeProgress t t' \<Longrightarrow> \<exists>ys. written t' = written t @ ys"
  by (simp add: treeProgress_def)

lemma counted_simps [simp]:
  "idPrefix (counted t a s) = idPrefix t" "root (counted t a s) = root t"
  "nextId (counted t a s) = nextId t" "written (counted t a s) = written t"
  "length (heap (counted t a s)) = length (heap t)"
  "deref (counted t a s) b =
     (if b = a then map_option (\<lambda>n. n\<lparr>variant :=
        TestSuiteNode (s\<lparr>finishedChildCount := finishedChildCount s + 1\<rparr>)\<rparr>) (deref t a)
      else deref t b)"
  by (simp_all add: counted_def)

lemma deref_finished:
  "deref t a = Some n \<Longrightarrow> deref (setState (writeln t m) a st) a = Some (n\<lparr>state := st\<rparr>)"
  by simp

lemma deref_counted:
  "deref t a = Some n \<Longrightarrow>
   deref (counted t a s) a = Some (n\<lparr>variant :=
        TestSuiteNode (s\<lparr>finishedChildCount := finishedChildCount s + 1\<rparr>)\<rparr>)"
  by simp

section \<open>Evaluating the trees of the automatic finish\<close>

lemma run_append: "run st t (xs @ ys) = run st (run st t xs) ys"
  by (induction xs arbitrary: t) simp_all

lemma threeLeaves_nodes:
  "root threeLeaves = 0"
  "deref threeLeaves 1 = Some (heap threeLeaves ! 1)"
  "deref threeLeaves 3 = Some (heap threeLeaves ! 3)"
  "deref threeLeaves 4 = Some (heap threeLeaves ! 4)"
  "variant (heap threeLeaves ! 1) = TestSuiteNode (threeLeavesSuite 1)"
  "state (heap threeLeaves ! 1) = STARTED"
  "parent (heap threeLeaves ! 1) = Some 0"
  "id_node (heap threeLeaves ! 1) = NumId 1"
  "state (heap threeLeaves ! 3) = STARTED"
  "state (heap threeLeaves ! 4) = STARTED"
  "getFinishMessage (heap threeLeaves ! 3) = Inr (lit ''##teamcity[testFinished nodeId='3' duration='6']'')"
  "getFinishMessage (heap threeLeaves ! 4) = Inr (lit ''##teamcity[testFinished nodeId='4' duration='7']'')"
  by (simp_all add: threeLeaves_eq deref_def threeLeavesSuite_def msg_defs digitsOf_digit lit_def)

lemmas threeLeaves_facts = threeLeaves_nodes threeLeaves_nodes[unfolded One_nat_def]

lemma finish_threeLeaves:
  "finish threeLeaves 3 True =
     (Inr (), counted (setState (writeln threeLeaves
        (lit ''##teamcity[testFinished nodeId='3' duration='6']'')) 3 FINISHED) 1 (threeLeavesSuite 1))"
proof -
  let ?t1 = "setState (writeln threeLeaves
        (lit ''##teamcity[testFinished nodeId='3' duration='6']'')) 3 FINISHED"
  have p: "parent (heap threeLeaves ! 3) = Some 1" by (simp add: threeLeaves_eq)
  have "finish threeLeaves 3 True = onChildFinished ?t1 1"
    using finish_step[OF _ threeLeaves_nodes(3) _ threeLeaves_nodes(11), of True]
    by (simp add: threeLeaves_nodes(1,9) p)
  moreover have "deref ?t1 1 = Some (heap threeLeaves ! 1)"
    by (simp add: threeLeaves_facts)
  ultimately show ?thesis
    using onChildFinished_step[OF _ threeLeaves_nodes(5), of ?t1 1]
    by (simp add: counted_def threeLeavesSuite_def)
qed

lemma twoDone_eq:
  "twoDone = counted (setState (writeln threeLeaves
        (lit ''##teamcity[testFinished nodeId='3' duration='6']'')) 3 FINISHED) 1 (threeLeavesSuite 1)"
  by (simp add: twoDone_def run_append threeLeaves_def[symmetric] finish_threeLeaves)

lemma twoDone_nodes:
  "root twoDone = 0"
  "deref twoDone 1 = Some ((heap threeLeaves ! 1)\<lparr>variant := TestSuiteNode (threeLeavesSuite 2)\<rparr>)"
  "deref twoDone 4 = Some (heap threeLeaves ! 4)"
  "written twoDone = written threeLeaves @
     [lit ''##teamcity[testFinished nodeId='3' duration='6']'' @ [0x0A]]"
  by (simp_all add: twoDone_eq threeLeaves_facts threeLeavesSuite_def)

lemma leafTree_nodes:
  "root leafTree = 0"
  "deref leafTree 1 = Some (heap leafTree ! 1)"
  "deref leafTree 0 = Some (heap leafTree ! 0)"
  "variant (heap leafTree ! 1) =
     TestSuiteNode \<lparr>children = [2], lookupMap = [(lit ''leaf'', Single 2)], finishedChildCount = 0\<rparr>"
  "state (heap leafTree ! 1) = CREATED"
  "parent (heap leafTree ! 1) = Some 0"
  by (simp_all add: leafTree_eq deref_def)

lemmas leafTree_facts = leafTree_nodes leafTree_nodes[unfolded One_nat_def]

lemma start_leafTree:
  "\<exists>msg. start leafTree 1 = (Inr (), setState (writeln leafTree msg) 1 STARTED)"
proof -
  have "\<exists>msg. getStartMessage leafTree (heap leafTree ! 1) = Inr msg"
    by (simp add: getStartMessage_def getInitMessage_def leafTree_nodes
      leafTree_nodes[unfolded One_nat_def] Let_def)
  then obtain msg where "getStartMessage leafTree (heap leafTree ! 1) = Inr msg" by blast
  then have "start leafTree 1 = (Inr (), setState (writeln leafTree msg) 1 STARTED)"
    by (simp add: start_def leafTree_nodes leafTree_nodes[unfolded One_nat_def])
  then show ?thesis by blast
qed

lemma runningLeaf_eq:
  "runningLeaf = setState (writeln leafTreeDone
     (lit ''##teamcity[testStarted nodeId='2' parentNodeId='1' name='leaf' running='true']'')) 2 STARTED"
proof -
  have "escapeAttributeValue (lit ''leaf'') = lit ''leaf''"
    by (rule escape_identity) (simp add: lit_def escapable_def)
  moreover have "deref leafTreeDone 1 = Some (heap leafTree ! 1)"
    by (simp add: leafTreeDone_def setOutcome_def leafTree_eq deref_def updNode_def newTestNode_def)
  moreover have "id_node (heap leafTree ! 1) = NumId 1" by (simp add: leafTree_eq)
  ultimately show ?thesis
    unfolding runningLeaf_def
    by (simp add: start_def leafTreeDone_leaf msg_defs newTestNode_def digitsOf_digit) (simp add: lit_def)
qed

section \<open>One child of a suite finishes\<close>

lemma auto_finish_step:
  assumes reach: "t = run stack (newTree prefix) calls"
    and s: "deref t s = Some sn" "variant sn = TestSuiteNode sf" "s \<noteq> root t"
    and c: "c \<in> set (children sf)" "deref t c = Some cn"
    and cst: "state cn = REGISTERED \<or> state cn = STARTED"
    and cmsg: "getFinishMessage cn = Inr cmsg"
  shows "(finishedChildCount sf + 1 \<noteq> length (children sf) \<or> state sn = FINISHED \<longrightarrow>
            finish t c True = (Inr (), counted (setState (writeln t cmsg) c FINISHED) s sf)) \<and>
         (finishedChildCount sf + 1 = length (children sf) \<and>
          (state sn = REGISTERED \<or> state sn = STARTED) \<longrightarrow>
            finish t c True =
              (case parent sn of
                 None \<Rightarrow> (Inr (), setState (writeln (counted (setState (writeln t cmsg) c FINISHED) s sf)
                                  (suiteFinishMessage (id_node sn))) s FINISHED)
               | Some p \<Rightarrow>
                   if p \<noteq> root t then
                     onChildFinished (setState (writeln (counted (setState (writeln t cmsg) c FINISHED) s sf)
                                  (suiteFinishMessage (id_node sn))) s FINISHED) p
                   else (Inr (), setState (writeln (counted (setState (writeln t cmsg) c FINISHED) s sf)
                                  (suiteFinishMessage (id_node sn))) s FINISHED)) \<and>
            map_option state (deref (snd (finish t c True)) s) = Some FINISHED \<and>
            cmsg \<noteq> suiteFinishMessage (id_node sn) \<and>
            (\<exists>rest. written (snd (finish t c True)) =
                written t @ [cmsg @ [0x0A], suiteFinishMessage (id_node sn) @ [0x0A]] @ rest \<and>
                suiteFinishMessage (id_node sn) @ [0x0A] \<notin> set rest))"
proof -
  let ?smsg = "suiteFinishMessage (id_node sn)"
  let ?t1 = "setState (writeln t cmsg) c FINISHED"
  let ?t2 = "counted ?t1 s sf"
  let ?t3 = "setState (writeln ?t2 ?smsg) s FINISHED"
  let ?sn2 = "sn\<lparr>variant := TestSuiteNode (sf\<lparr>finishedChildCount := finishedChildCount sf + 1\<rparr>)\<rparr>"
  have wf: "wellFormed t" unfolding reach by (rule run_wellFormed) (rule newTree_wellFormed)
  then have u: "uniqueIds t" by (rule wellFormed_uniqueIds)
  from s(1) have s_lt: "s < length (heap t)" and s_nth: "heap t ! s = sn" by (simp_all add: deref_Some)
  from c(2) have c_nth: "heap t ! c = cn" by (simp add: deref_Some)
  have vs: "variant (heap t ! s) = TestSuiteNode sf" by (simp only: s_nth s(2))
  from wellFormed_children[OF wf s_lt vs] c(1) have sc: "s < c" and "parent (heap t ! c) = Some s"
    by blast+
  then have pc: "parent cn = Some s" by (simp only: c_nth)
  from sc have cs: "c \<noteq> s" by simp
  from wellFormed_root[OF wf] sc have cr: "root t \<noteq> c" by simp
  have s1: "deref ?t1 s = Some sn" using s(1) cs by simp
  have step1: "finish t c True = onChildFinished ?t1 s"
    using finish_step[OF cr c(2) cst cmsg, of True] pc s(3) by simp
  have step2: "onChildFinished ?t1 s =
     (if finishedChildCount sf + 1 = length (children sf) \<and> state sn \<noteq> FINISHED
      then finish ?t2 s True else (Inr (), ?t2))"
    using onChildFinished_step[OF s1 s(2)] by (simp add: counted_def)
  have first: "finish t c True = (Inr (), ?t2)"
    if "finishedChildCount sf + 1 \<noteq> length (children sf) \<or> state sn = FINISHED"
    using that step1 step2 by auto
  have second: "finish t c True =
              (case parent sn of None \<Rightarrow> (Inr (), ?t3)
               | Some p \<Rightarrow> if p \<noteq> root t then onChildFinished ?t3 p else (Inr (), ?t3)) \<and>
            map_option state (deref (snd (finish t c True)) s) = Some FINISHED \<and>
            cmsg \<noteq> ?smsg \<and>
            (\<exists>rest. written (snd (finish t c True)) =
                written t @ [cmsg @ [0x0A], ?smsg @ [0x0A]] @ rest \<and> ?smsg @ [0x0A] \<notin> set rest)"
    if last: "finishedChildCount sf + 1 = length (children sf)"
      and st: "state sn = REGISTERED \<or> state sn = STARTED"
  proof -
    have s2: "deref ?t2 s = Some ?sn2" using s1 by (rule deref_counted)
    have r2: "root ?t2 \<noteq> s" using s(3) by simp
    have st2: "state ?sn2 = REGISTERED \<or> state ?sn2 = STARTED" using st by simp
    have m2: "getFinishMessage ?sn2 = Inr ?smsg"
      using getFinishMessage_suite[of ?sn2] by simp
    have step3: "finish ?t2 s True =
              (case parent sn of None \<Rightarrow> (Inr (), ?t3)
               | Some p \<Rightarrow> if p \<noteq> root t then onChildFinished ?t3 p else (Inr (), ?t3))"
      using finish_step[OF r2 s2 st2 m2, of True] by (simp split: option.splits)
    from st have "state sn \<noteq> FINISHED" by auto
    with step1 step2 last have eq: "finish t c True = finish ?t2 s True" by simp
    have s3: "deref ?t3 s = Some (?sn2\<lparr>state := FINISHED\<rparr>)" using s2 by (rule deref_finished)
    have w3: "written ?t3 = written t @ [cmsg @ [0x0A], ?smsg @ [0x0A]]"
      by simp
    have "snd (finish t c True) = ?t3 \<or> (\<exists>p. snd (finish t c True) = snd (onChildFinished ?t3 p))"
      unfolding eq step3 by (auto split: option.splits)
    then have prog: "treeProgress ?t3 (snd (finish t c True))"
      using finish_progress(2) by (auto simp: treeProgress_refl)
    have fin: "map_option state (deref (snd (finish t c True)) s) = Some FINISHED"
      using progress_keeps_finished[OF prog s3] by auto
    have p1: "treeProgress t ?t1" using c(2) cst by (rule treeProgress_finish_step)
    have p2: "treeProgress ?t1 ?t2" unfolding counted_def using s1 s(2) by (rule treeProgress_count_step)
    have p3: "treeProgress ?t2 ?t3" using s2 st2 by (rule treeProgress_finish_step)
    have u3: "uniqueIds ?t3"
      using u p1 p2 p3 by (blast intro: uniqueIds_progress)
    have count: "count_list (written (snd (finish t c True))) (?smsg @ [0x0A]) =
                 count_list (written ?t3) (?smsg @ [0x0A])"
    proof (cases "\<exists>p. parent sn = Some p \<and> p \<noteq> root t")
      case False
      then have "snd (finish t c True) = ?t3"
        unfolding eq step3 by (auto split: option.splits)
      then show ?thesis by simp
    next
      case True
      then obtain p where "parent sn = Some p" "p \<noteq> root t" by blast
      then have "snd (finish t c True) = snd (onChildFinished ?t3 p)"
        unfolding eq step3 by simp
      with finish_keeps_line_count(2)[OF u3 s3, of p] show ?thesis by simp
    qed
    from written_progress[OF prog] obtain rest where
      rest: "written (snd (finish t c True)) = written ?t3 @ rest" by blast
    with count have "count_list (written ?t3 @ rest) (?smsg @ [0x0A]) =
        count_list (written ?t3) (?smsg @ [0x0A])" by (simp only:)
    then have "count_list rest (?smsg @ [0x0A]) = 0" by (simp only: count_list_append) simp?
    then have notin: "?smsg @ [0x0A] \<notin> set rest" by (simp add: count_list_0_iff)
    have differs: "cmsg \<noteq> ?smsg"
    proof (cases "variant cn")
      case (TestNode l)
      then show ?thesis using cmsg by (rule leaf_message_differs)
    next
      case (TestSuiteNode csf)
      with cmsg have m: "cmsg = suiteFinishMessage (id_node cn)"
        by (simp add: getFinishMessage_suite)
      show ?thesis
      proof
        assume "cmsg = ?smsg"
        then have "suiteFinishMessage (id_node cn) = ?smsg" unfolding m .
        then have "idToString (id_node cn) = idToString (id_node sn)"
          by (rule suiteFinishMessage_inj)
        with u c(2) s(1) have "c = s" unfolding uniqueIds_def deref_Some by blast
        with cs show False by simp
      qed
    qed
    from rest w3 have wr: "written (snd (finish t c True)) =
        written t @ [cmsg @ [0x0A], ?smsg @ [0x0A]] @ rest" by simp
    have main: "finish t c True =
              (case parent sn of None \<Rightarrow> (Inr (), ?t3)
               | Some p \<Rightarrow> if p \<noteq> root t then onChildFinished ?t3 p else (Inr (), ?t3))"
      unfolding eq by (rule step3)
    show ?thesis
      apply (intro conjI exI[of _ rest])
          apply (rule main)
         apply (rule fin)
        apply (rule differs)
       apply (rule wr)
      apply (rule notin)
      done
  qed
  from first second show ?thesis by blast
qed

section \<open>All children of a suite finish\<close>

lemma forEachChild_snoc:
  "forEachChild f t (cs @ [c]) =
     (case forEachChild f t cs of (Inl e, t') \<Rightarrow> (Inl e, t') | (Inr u, t') \<Rightarrow> f t' c)"
proof (induction cs arbitrary: t)
  case Nil
  show ?case by (cases "f t c") (auto split: sum.splits)
next
  case (Cons a cs)
  show ?case by (cases "f t a") (auto simp: Cons.IH split: sum.splits)
qed

lemma readyToFinishE:
  assumes "readyToFinish t c"
  obtains n m where "deref t c = Some n" "state n = REGISTERED \<or> state n = STARTED"
    "getFinishMessage n = Inr m" "finishLine t c = m @ [0x0A]"
  using assms unfolding readyToFinish_def finishLine_def
  by (auto split: option.splits sum.splits)

lemma finishChildren_not_last:
  assumes "t = run stack (newTree prefix) calls"
    and "deref t s = Some sn" and "variant sn = TestSuiteNode sf" and "s \<noteq> root t"
    and "distinct cs" and "set cs \<subseteq> set (children sf)" and "\<forall>c \<in> set cs. readyToFinish t c"
    and "finishedChildCount sf + length cs < length (children sf)"
  shows "\<exists>t' calls'. finishChildren t cs = (Inr (), t') \<and> t' = run stack (newTree prefix) calls' \<and>
           deref t' s = Some (sn\<lparr>variant := TestSuiteNode
              (sf\<lparr>finishedChildCount := finishedChildCount sf + length cs\<rparr>)\<rparr>) \<and>
           written t' = written t @ map (finishLine t) cs \<and>
           (\<forall>c. c \<notin> set cs \<longrightarrow> c \<noteq> s \<longrightarrow> deref t' c = deref t c)"
  using assms
proof (induction cs arbitrary: t sn sf calls)
  case Nil
  then show ?case by (auto simp: finishChildren_def)
next
  case (Cons c cs)
  from Cons.prems(7) have "readyToFinish t c" by simp
  then obtain cn cmsg where cn: "deref t c = Some cn"
    and cst: "state cn = REGISTERED \<or> state cn = STARTED"
    and cmsg: "getFinishMessage cn = Inr cmsg" and line: "finishLine t c = cmsg @ [0x0A]"
    by (rule readyToFinishE)
  from Cons.prems(6) have cin: "c \<in> set (children sf)" by simp
  let ?t1 = "counted (setState (writeln t cmsg) c FINISHED) s sf"
  let ?sf1 = "sf\<lparr>finishedChildCount := finishedChildCount sf + 1\<rparr>"
  let ?sn1 = "sn\<lparr>variant := TestSuiteNode ?sf1\<rparr>"
  from Cons.prems(8) have notlast: "finishedChildCount sf + 1 \<noteq> length (children sf)" by simp
  have step: "finish t c True = (Inr (), ?t1)"
    using auto_finish_step[OF Cons.prems(1,2,3,4) cin cn cst cmsg] notlast by blast
  have wf: "wellFormed t" unfolding Cons.prems(1) by (rule run_wellFormed) (rule newTree_wellFormed)
  from Cons.prems(2) have s_lt: "s < length (heap t)" and s_nth: "heap t ! s = sn"
    by (simp_all add: deref_Some)
  have vs: "variant (heap t ! s) = TestSuiteNode sf" by (simp only: s_nth Cons.prems(3))
  note kids = wellFormed_children[OF wf s_lt vs]
  from kids cin have cs_ne: "c \<noteq> s" by blast
  have reach1: "?t1 = run stack (newTree prefix) (calls @ [Finish c True])"
    using step by (simp add: run_append Cons.prems(1)[symmetric])
  have s1: "deref ?t1 s = Some ?sn1" using cs_ne Cons.prems(2) by simp
  have v1: "variant ?sn1 = TestSuiteNode ?sf1" by simp
  have r1: "s \<noteq> root ?t1" using Cons.prems(4) by simp
  have d1: "distinct cs" and sub1: "set cs \<subseteq> set (children ?sf1)"
    using Cons.prems(5,6) by simp_all
  have same: "deref ?t1 x = deref t x" if "x \<noteq> c" "x \<noteq> s" for x using that by simp
  have rest_ne: "x \<noteq> c \<and> x \<noteq> s" if "x \<in> set cs" for x
    using that Cons.prems(5,6) kids by auto
  have ready1: "\<forall>x \<in> set cs. readyToFinish ?t1 x"
    using Cons.prems(7) rest_ne same by (simp add: readyToFinish_def)
  have few1: "finishedChildCount ?sf1 + length cs < length (children ?sf1)"
    using Cons.prems(8) by simp
  from Cons.IH[OF reach1 s1 v1 r1 d1 sub1 ready1 few1]
  obtain t' calls' where t': "finishChildren ?t1 cs = (Inr (), t')"
    "t' = run stack (newTree prefix) calls'"
    "deref t' s = Some (?sn1\<lparr>variant := TestSuiteNode
              (?sf1\<lparr>finishedChildCount := finishedChildCount ?sf1 + length cs\<rparr>)\<rparr>)"
    "written t' = written ?t1 @ map (finishLine ?t1) cs"
    "\<forall>x. x \<notin> set cs \<longrightarrow> x \<noteq> s \<longrightarrow> deref t' x = deref ?t1 x" by blast
  have lines: "map (finishLine ?t1) cs = map (finishLine t) cs"
    using rest_ne same by (simp add: finishLine_def)
  have "finishChildren t (c # cs) = (Inr (), t')"
    using step t'(1) by (simp add: finishChildren_def)
  moreover have "written t' = written t @ map (finishLine t) (c # cs)"
    using t'(4) lines line by simp
  moreover have "deref t' s = Some (sn\<lparr>variant := TestSuiteNode
              (sf\<lparr>finishedChildCount := finishedChildCount sf + length (c # cs)\<rparr>)\<rparr>)"
    using t'(3) by simp
  moreover have "\<forall>x. x \<notin> set (c # cs) \<longrightarrow> x \<noteq> s \<longrightarrow> deref t' x = deref t x"
    using t'(5) same by simp
  ultimately show ?case using t'(2) by blast
qed


lemma child_message_differs:
  assumes wf: "wellFormed t"
    and s: "deref t s = Some sn" "variant sn = TestSuiteNode sf"
    and c: "c \<in> set (children sf)" "deref t c = Some cn" "getFinishMessage cn = Inr cmsg"
  shows "cmsg \<noteq> suiteFinishMessage (id_node sn)"
proof (cases "variant cn")
  case (TestNode l)
  then show ?thesis using c(3) by (rule leaf_message_differs)
next
  case (TestSuiteNode csf)
  with c(3) have m: "cmsg = suiteFinishMessage (id_node cn)"
    by (simp add: getFinishMessage_suite)
  from s(1) have s_lt: "s < length (heap t)" and s_nth: "heap t ! s = sn"
    by (simp_all add: deref_Some)
  have vs: "variant (heap t ! s) = TestSuiteNode sf" by (simp only: s_nth s(2))
  from wellFormed_children[OF wf s_lt vs] c(1) have cs: "c \<noteq> s" by blast
  have u: "uniqueIds t" using wf by (rule wellFormed_uniqueIds)
  show ?thesis
  proof
    assume "cmsg = suiteFinishMessage (id_node sn)"
    then have "suiteFinishMessage (id_node cn) = suiteFinishMessage (id_node sn)" unfolding m .
    then have "idToString (id_node cn) = idToString (id_node sn)"
      by (rule suiteFinishMessage_inj)
    with u c(2) s(1) have "c = s" unfolding uniqueIds_def deref_Some by blast
    with cs show False by simp
  qed
qed

lemma finishChildren_all:
  assumes reach: "t = run stack (newTree prefix) calls"
    and s: "deref t s = Some sn" and v: "variant sn = TestSuiteNode sf" and r: "s \<noteq> root t"
    and k0: "finishedChildCount sf = 0"
    and st: "state sn = REGISTERED \<or> state sn = STARTED"
    and d: "distinct order" and so: "set order = set (children sf)" and ne: "order \<noteq> []"
    and ready: "\<forall>c \<in> set order. readyToFinish t c"
  shows "(\<forall>j < length order.
            fst (finishChildren t (take j order)) = Inr () \<and>
            stateAt (snd (finishChildren t (take j order))) s = Some (state sn) \<and>
            written (snd (finishChildren t (take j order))) =
              written t @ map (finishLine t) (take j order)) \<and>
         stateAt (snd (finishChildren t order)) s = Some FINISHED \<and>
         (\<exists>rest. written (snd (finishChildren t order)) =
             written t @ map (finishLine t) order @ [suiteFinishMessage (id_node sn) @ [0x0A]] @ rest \<and>
             suiteFinishMessage (id_node sn) @ [0x0A] \<notin> set (map (finishLine t) order) \<union> set rest)"
proof -
  let ?sline = "suiteFinishMessage (id_node sn) @ [0x0A]"
  have wf: "wellFormed t" unfolding reach by (rule run_wellFormed) (rule newTree_wellFormed)
  from s have s_lt: "s < length (heap t)" and s_nth: "heap t ! s = sn"
    by (simp_all add: deref_Some)
  have vs: "variant (heap t ! s) = TestSuiteNode sf" by (simp only: s_nth v)
  note kids = wellFormed_children[OF wf s_lt vs]
  from kids have "distinct (children sf)" by blast
  with d so have len: "length order = length (children sf)"
    by (metis distinct_card)
  have before: "fst (finishChildren t (take j order)) = Inr () \<and>
            stateAt (snd (finishChildren t (take j order))) s = Some (state sn) \<and>
            written (snd (finishChildren t (take j order))) =
              written t @ map (finishLine t) (take j order)" if j: "j < length order" for j
  proof -
    have "distinct (take j order)" using d by simp
    moreover have "set (take j order) \<subseteq> set (children sf)"
      using so set_take_subset[of j order] by simp
    moreover have "\<forall>c \<in> set (take j order). readyToFinish t c"
      using ready set_take_subset[of j order] by blast
    moreover have "finishedChildCount sf + length (take j order) < length (children sf)"
      using j k0 len by simp
    ultimately obtain t' where "finishChildren t (take j order) = (Inr (), t')"
      "deref t' s = Some (sn\<lparr>variant := TestSuiteNode
              (sf\<lparr>finishedChildCount := finishedChildCount sf + length (take j order)\<rparr>)\<rparr>)"
      "written t' = written t @ map (finishLine t) (take j order)"
      using finishChildren_not_last[OF reach s v r] by blast
    then show ?thesis by (simp add: stateAt_def)
  qed
  define bl where "bl = butlast order"
  define c where "c = last order"
  have order: "order = bl @ [c]" using ne by (simp add: bl_def c_def)
  have cin: "c \<in> set (children sf)" using so order by auto
  have c_bl: "c \<notin> set bl" using d order by auto
  from kids cin have c_s: "c \<noteq> s" by blast
  have "distinct bl" using d order by auto
  moreover have "set bl \<subseteq> set (children sf)" using so order by auto
  moreover have "\<forall>x \<in> set bl. readyToFinish t x" using ready order by auto
  moreover have "finishedChildCount sf + length bl < length (children sf)"
    using k0 len order by simp
  ultimately obtain t' calls' where t': "finishChildren t bl = (Inr (), t')"
    "t' = run stack (newTree prefix) calls'"
    "deref t' s = Some (sn\<lparr>variant := TestSuiteNode
              (sf\<lparr>finishedChildCount := finishedChildCount sf + length bl\<rparr>)\<rparr>)"
    "written t' = written t @ map (finishLine t) bl"
    "\<forall>x. x \<notin> set bl \<longrightarrow> x \<noteq> s \<longrightarrow> deref t' x = deref t x"
    using finishChildren_not_last[OF reach s v r] by blast
  let ?sf' = "sf\<lparr>finishedChildCount := finishedChildCount sf + length bl\<rparr>"
  let ?sn' = "sn\<lparr>variant := TestSuiteNode ?sf'\<rparr>"
  from ready order have "readyToFinish t c" by simp
  then obtain cn cmsg where cn: "deref t c = Some cn"
    and cst: "state cn = REGISTERED \<or> state cn = STARTED"
    and cmsg: "getFinishMessage cn = Inr cmsg" and line: "finishLine t c = cmsg @ [0x0A]"
    by (rule readyToFinishE)
  have cn': "deref t' c = Some cn" using t'(5) c_bl c_s cn by simp
  have v': "variant ?sn' = TestSuiteNode ?sf'" by simp
  have r': "s \<noteq> root t'"
    using r wellFormed_root[OF wf] wellFormed_root[OF run_wellFormed[OF newTree_wellFormed, of stack prefix calls']]
    by (simp add: t'(2))
  have cin': "c \<in> set (children ?sf')" using cin by simp
  have last: "finishedChildCount ?sf' + 1 = length (children ?sf') \<and>
              (state ?sn' = REGISTERED \<or> state ?sn' = STARTED)"
    using k0 len order st by simp
  note step = auto_finish_step[OF t'(2,3) v' r' cin' cn' cst cmsg,
      THEN conjunct2, THEN mp, OF last]
  have all: "finishChildren t order = finish t' c True"
    unfolding order finishChildren_def forEachChild_snoc
    using t'(1) by (simp add: finishChildren_def)
  from step have fin: "stateAt (snd (finishChildren t order)) s = Some FINISHED"
    unfolding all stateAt_def by blast
  from step obtain rest where rest: "written (snd (finish t' c True)) =
        written t' @ [cmsg @ [0x0A], suiteFinishMessage (id_node ?sn') @ [0x0A]] @ rest"
      "suiteFinishMessage (id_node ?sn') @ [0x0A] \<notin> set rest" by blast
  have "written (snd (finishChildren t order)) = written (snd (finish t' c True))"
    by (simp only: all)
  also have "\<dots> = written t' @ [cmsg @ [0x0A], suiteFinishMessage (id_node ?sn') @ [0x0A]] @ rest"
    by (rule rest(1))
  also have "\<dots> = written t @ map (finishLine t) order @ [?sline] @ rest"
    using line by (simp add: t'(4) order)
  finally have w: "written (snd (finishChildren t order)) =
             written t @ map (finishLine t) order @ [?sline] @ rest" .
  have "?sline \<noteq> finishLine t x" if "x \<in> set order" for x
  proof -
    from ready that have "readyToFinish t x" by blast
    then obtain xn m where x: "deref t x = Some xn" "getFinishMessage xn = Inr m"
      "finishLine t x = m @ [0x0A]" by (rule readyToFinishE)
    from that so have "x \<in> set (children sf)" by simp
    from child_message_differs[OF wf s v this x(1,2)] x(3) show ?thesis by simp
  qed
  then have "?sline \<notin> set (map (finishLine t) order)" by auto
  with rest(2) have notin: "?sline \<notin> set (map (finishLine t) order) \<union> set rest" by simp
  from w notin have "\<exists>rest. written (snd (finishChildren t order)) =
             written t @ map (finishLine t) order @ [?sline] @ rest \<and>
             ?sline \<notin> set (map (finishLine t) order) \<union> set rest" by blast
  with before fin show ?thesis by blast
qed

lemma threeReady_eq:
  "threeReady =
   \<lparr>idPrefix = None,
     written =
       [lit ''##teamcity[testSuiteStarted nodeId='1' parentNodeId='0' name='suite' running='true']'' @ [0x0A],
        lit ''##teamcity[testStarted nodeId='2' parentNodeId='1' name='a' running='true']'' @ [0x0A],
        lit ''##teamcity[testStarted nodeId='3' parentNodeId='1' name='b' running='true']'' @ [0x0A],
        lit ''##teamcity[testStarted nodeId='4' parentNodeId='1' name='c' running='true']'' @ [0x0A]],
     root = 0, nextId = 5,
     heap =
       [\<lparr>id_node = NumId 0, parent = None, name = lit ''hidden root'', type_node = None,
         locationPath = None, state = CREATED,
         variant = TestSuiteNode \<lparr>children = [1], lookupMap = [(lit ''suite'', Single 1)],
           finishedChildCount = 0\<rparr>\<rparr>,
        \<lparr>id_node = NumId 1, parent = Some 0, name = lit ''suite'', type_node = None,
         locationPath = None, state = STARTED,
         variant = TestSuiteNode \<lparr>children = [2, 3, 4], lookupMap = [(lit ''a'', Single 2), (lit ''b'', Single 3), (lit ''c'', Single 4)],
           finishedChildCount = 0\<rparr>\<rparr>,
        \<lparr>id_node = NumId 2, parent = Some 1, name = lit ''a'', type_node = None,
         locationPath = None, state = STARTED,
         variant = TestNode \<lparr>outcome = Some SUCCESS, durationMillis = Some 5, failureMsg = None,
           failureDetails = None, expectedStr = None, actualStr = None,
           expectedFilePath = None, actualFilePath = None, metainfo = None\<rparr>\<rparr>,
        \<lparr>id_node = NumId 3, parent = Some 1, name = lit ''b'', type_node = None,
         locationPath = None, state = STARTED,
         variant = TestNode \<lparr>outcome = Some SUCCESS, durationMillis = Some 6, failureMsg = None,
           failureDetails = None, expectedStr = None, actualStr = None,
           expectedFilePath = None, actualFilePath = None, metainfo = None\<rparr>\<rparr>,
        \<lparr>id_node = NumId 4, parent = Some 1, name = lit ''c'', type_node = None,
         locationPath = None, state = STARTED,
         variant = TestNode \<lparr>outcome = Some SUCCESS, durationMillis = Some 7, failureMsg = None,
           failureDetails = None, expectedStr = None, actualStr = None,
           expectedFilePath = None, actualFilePath = None, metainfo = None\<rparr>\<rparr>]\<rparr>"
  unfolding threeReady_def threeReadyCalls_def newTree_def
  by (simp add: call_defs digitsOf_digit) (simp add: lit_def)

lemma threeReady_nodes:
  "root threeReady = 0"
  "deref threeReady 1 = Some (heap threeReady ! 1)"
  "variant (heap threeReady ! 1) = TestSuiteNode (threeLeavesSuite 0)"
  "state (heap threeReady ! 1) = STARTED"
  "readyToFinish threeReady 2" "readyToFinish threeReady 3" "readyToFinish threeReady 4"
  by (simp_all add: threeReady_eq deref_def threeLeavesSuite_def readyToFinish_def msg_defs)

section \<open>The counter counts the finished children\<close>

lemma finished_skeleton:
  "(stateAt t c = Some FINISHED) = (map_option fst (skeleton t c) = Some True)"
  by (cases "deref t c") (auto simp: stateAt_def skeleton_def)

lemma childrenAt_skeleton:
  "childrenAt t s =
     (case skeleton t s of Some (f, p, Some (cs, k)) \<Rightarrow> cs | other \<Rightarrow> [])"
  by (cases "deref t s") (auto simp: childrenAt_def skeleton_def split: variant.splits)

lemma uncounted_skeleton:
  "uncounted t s =
     (case skeleton t s of
        Some (f, p, Some (cs, k)) \<Rightarrow>
          int (length (filter (\<lambda>c. map_option fst (skeleton t c) = Some True) cs)) - int k
      | other \<Rightarrow> 0)"
proof -
  have f: "finishedChildren t sf =
      length (filter (\<lambda>c. map_option fst (skeleton t c) = Some True) (children sf))" for sf
    by (simp only: finishedChildren_def finished_skeleton)
  show ?thesis
    by (cases "deref t s") (simp_all add: uncounted_def f skeleton_def split: variant.splits)
qed

lemma wellLinked_skeleton:
  "wellLinked t =
     (\<forall>c p. map_option (fst \<circ> snd) (skeleton t c) = Some (Some p) \<longrightarrow> c \<in> set (childrenAt t p))"
proof -
  have "(map_option (fst \<circ> snd) (skeleton t c) = Some (Some p)) =
        (c < length (heap t) \<and> parent (heap t ! c) = Some p)" for c p
    by (simp add: skeleton_def deref_def)
  then show ?thesis unfolding wellLinked_def by blast
qed

lemma skeleton_cong:
  assumes "\<And>a. skeleton t' a = skeleton t a"
  shows "uncounted t' s = uncounted t s" "childrenAt t' s = childrenAt t s"
    "wellLinked t' = wellLinked t"
  by (simp_all only: uncounted_skeleton childrenAt_skeleton wellLinked_skeleton assms)

lemma skeleton_heap: "heap t' = heap t \<Longrightarrow> skeleton t' a = skeleton t a"
  by (simp add: skeleton_def deref_def)

lemma skeleton_setState:
  assumes "deref t a = Some n" and "state n \<noteq> FINISHED" and "st \<noteq> FINISHED"
  shows "skeleton (setState (writeln t m) a st) x = skeleton t x"
  using assms by (simp add: skeleton_def)

lemma skeleton_leaf_update:
  assumes "deref t a = Some n" and "variant n = TestNode l"
  shows "skeleton (updNode t a (\<lambda>n. n\<lparr>variant := TestNode l'\<rparr>)) x = skeleton t x"
  using assms by (simp add: skeleton_def)

lemma register_skeleton: "skeleton (snd (register t a)) x = skeleton t x"
  by (auto simp: register_def getRegisterMessage_def skeleton_setState
      split: option.splits sum.splits if_splits)

lemma start_skeleton: "skeleton (snd (start t a)) x = skeleton t x"
  by (auto simp: start_def skeleton_setState split: option.splits sum.splits)

lemma setOutcome_skeleton:
  "skeleton (snd (setOutcome t a oc d m ds e ac ef af)) x = skeleton t x"
proof (cases "\<exists>n l. deref t a = Some n \<and> variant n = TestNode l \<and> outcome l = None")
  case False
  then have "snd (setOutcome t a oc d m ds e ac ef af) = t"
    by (auto simp: setOutcome_def split: option.splits variant.splits)
  then show ?thesis by simp
next
  case True
  then obtain n l where n: "deref t a = Some n" "variant n = TestNode l" and "outcome l = None"
    by blast
  then have "\<exists>l'. snd (setOutcome t a oc d m ds e ac ef af) =
      updNode t a (\<lambda>n. n\<lparr>variant := TestNode l'\<rparr>)"
    by (auto simp: setOutcome_def Let_def)
  then obtain l' where eq: "snd (setOutcome t a oc d m ds e ac ef af) =
      updNode t a (\<lambda>n. n\<lparr>variant := TestNode l'\<rparr>)" by blast
  show ?thesis unfolding eq by (rule skeleton_leaf_update[OF n])
qed

lemma setMetainfo_skeleton: "skeleton (snd (setMetainfo t a m)) x = skeleton t x"
proof (cases "\<exists>n l. deref t a = Some n \<and> variant n = TestNode l")
  case False
  then have "snd (setMetainfo t a m) = t"
    by (auto simp: setMetainfo_def split: option.splits variant.splits)
  then show ?thesis by simp
next
  case True
  then obtain n l where n: "deref t a = Some n" "variant n = TestNode l" by blast
  then have eq: "snd (setMetainfo t a m) =
      updNode t a (\<lambda>n. n\<lparr>variant := TestNode (l\<lparr>metainfo := m\<rparr>)\<rparr>)"
    by (simp add: setMetainfo_def)
  show ?thesis unfolding eq by (rule skeleton_leaf_update[OF n])
qed

lemma addStdErr_skeleton: "skeleton (snd (addStdErr t a e)) x = skeleton t x"
proof -
  have "heap (snd (addStdErr t a e)) = heap t"
    by (auto simp: addStdErr_def split: option.splits variant.splits)
  then show ?thesis by (rule skeleton_heap)
qed

lemma childrenAt_suite:
  "deref t s = Some n \<Longrightarrow> variant n = TestSuiteNode sf \<Longrightarrow> childrenAt t s = children sf"
  by (simp add: childrenAt_def)

lemma childrenAt_progress:
  assumes "treeProgress t t'"
  shows "childrenAt t' s = childrenAt t s"
proof (cases "s < length (heap t)")
  case False
  with assms show ?thesis by (simp add: childrenAt_def deref_def treeProgress_def)
next
  case True
  with assms have "variantProgress (variant (heap t ! s)) (variant (heap t' ! s))"
    and "length (heap t') = length (heap t)"
    by (simp_all add: treeProgress_def nodeProgress_def)
  with True show ?thesis
    by (cases "variant (heap t ! s)"; cases "variant (heap t' ! s)")
       (simp_all add: childrenAt_def deref_def)
qed

lemma wellLinked_progress:
  assumes p: "treeProgress t t'" and l: "wellLinked t"
  shows "wellLinked t'"
proof -
  from p have len: "length (heap t') = length (heap t)"
    and par: "\<And>c. c < length (heap t) \<Longrightarrow> parent (heap t' ! c) = parent (heap t ! c)"
    by (simp_all add: treeProgress_def nodeProgress_def)
  show ?thesis unfolding wellLinked_def
  proof (intro allI impI)
    fix c q
    assume c: "c < length (heap t')" and q: "parent (heap t' ! c) = Some q"
    from c len have c': "c < length (heap t)" by simp
    with q par[of c] have "parent (heap t ! c) = Some q" by simp
    with l c' have "c \<in> set (childrenAt t q)" unfolding wellLinked_def by blast
    then show "c \<in> set (childrenAt t' q)" by (simp only: childrenAt_progress[OF p])
  qed
qed

lemma wellFormed_progress: "treeProgress t t' \<Longrightarrow> wellFormed t \<Longrightarrow> wellFormed t'"
  using sameStructure_progress wellFormed_sameStructure by blast

lemma filter_one_more:
  "distinct cs \<Longrightarrow> \<not> P a \<Longrightarrow>
   length (filter (\<lambda>c. c = a \<or> P c) cs) = length (filter P cs) + (if a \<in> set cs then 1 else 0)"
  by (induction cs) auto

lemma stateAt_finished [simp]:
  "stateAt (setState (writeln t m) a st) c =
     (if c = a then map_option (\<lambda>x. st) (deref t a) else stateAt t c)"
  by (simp add: stateAt_def option.map_comp comp_def)

lemma stateAt_counted [simp]: "stateAt (counted t p sf) c = stateAt t c"
  by (simp add: stateAt_def option.map_comp comp_def)

lemma uncounted_finished:
  assumes wf: "wellFormed t" and n: "deref t a = Some n" and st: "state n \<noteq> FINISHED"
  shows "uncounted (setState (writeln t m) a FINISHED) s =
         uncounted t s + (if a \<in> set (childrenAt t s) then 1 else 0)"
proof (cases "deref t s")
  case None
  with n have "s \<noteq> a" by auto
  with None show ?thesis by (simp add: uncounted_def childrenAt_def)
next
  case (Some sn)
  show ?thesis
  proof (cases "variant sn")
    case (TestNode l)
    with Some show ?thesis by (auto simp: uncounted_def childrenAt_def)
  next
    case (TestSuiteNode sf)
    from Some have s_lt: "s < length (heap t)" and s_nth: "heap t ! s = sn"
      by (simp_all add: deref_Some)
    have vs: "variant (heap t ! s) = TestSuiteNode sf" by (simp only: s_nth TestSuiteNode)
    from wellFormed_children[OF wf s_lt vs] have d: "distinct (children sf)" by blast
    have nf: "\<not> stateAt t a = Some FINISHED" using n st by (simp add: stateAt_def)
    have fin: "(stateAt (setState (writeln t m) a FINISHED) c = Some FINISHED) =
               (c = a \<or> stateAt t c = Some FINISHED)" for c
      using n by simp
    have "finishedChildren (setState (writeln t m) a FINISHED) sf =
          finishedChildren t sf + (if a \<in> set (children sf) then 1 else 0)"
      unfolding finishedChildren_def fin using d nf by (rule filter_one_more)
    moreover have "\<exists>sn'. deref (setState (writeln t m) a FINISHED) s = Some sn' \<and>
        variant sn' = TestSuiteNode sf"
      using Some TestSuiteNode by (cases "s = a") auto
    ultimately show ?thesis
      using Some TestSuiteNode by (auto simp: uncounted_def childrenAt_def)
  qed
qed

lemma uncounted_counted:
  assumes n: "deref t p = Some n" and v: "variant n = TestSuiteNode sf"
  shows "uncounted (counted t p sf) s = uncounted t s - (if p = s then 1 else 0)"
proof (cases "p = s")
  case True
  with n v show ?thesis by (simp add: uncounted_def finishedChildren_def)
next
  case False
  then show ?thesis
    by (simp add: uncounted_def finishedChildren_def split: option.splits variant.splits)
qed

lemma isSuiteAt_children: "c \<in> set (childrenAt t p) \<Longrightarrow> isSuiteAt t p"
  by (cases "deref t p"; cases "variant (the (deref t p))")
     (simp_all add: childrenAt_def isSuiteAt_def)

lemma child_parent:
  assumes wf: "wellFormed t" and c: "c \<in> set (childrenAt t s)"
  shows "c < length (heap t) \<and> parent (heap t ! c) = Some s"
proof -
  from c have "\<exists>sn sf. deref t s = Some sn \<and> variant sn = TestSuiteNode sf \<and>
      c \<in> set (children sf)"
    by (cases "deref t s"; cases "variant (the (deref t s))") (simp_all add: childrenAt_def)
  then obtain sn sf where s: "deref t s = Some sn" "variant sn = TestSuiteNode sf"
    and c': "c \<in> set (children sf)" by blast
  from s(1) have s_lt: "s < length (heap t)" and s_nth: "heap t ! s = sn"
    by (simp_all add: deref_Some)
  have vs: "variant (heap t ! s) = TestSuiteNode sf" by (simp only: s_nth s(2))
  from wellFormed_children[OF wf s_lt vs] c' show ?thesis by blast
qed

lemma finish_uncounted:
  "wellFormed t \<Longrightarrow> wellLinked t \<Longrightarrow> s \<noteq> 0 \<Longrightarrow> b \<or> a \<notin> set (childrenAt t s) \<Longrightarrow>
   uncounted (snd (finish t a b)) s = uncounted t s"
  "wellFormed t \<Longrightarrow> wellLinked t \<Longrightarrow> s \<noteq> 0 \<Longrightarrow>
   uncounted (snd (onChildFinished t a)) s =
     uncounted t s - (if a = s \<and> isSuiteAt t a then 1 else 0)"
proof (induction t a b and t a rule: finish_onChildFinished.induct)
  case (1 t a b)
  note wf = "1.prems"(1) and wl = "1.prems"(2) and s0 = "1.prems"(3) and ok = "1.prems"(4)
  show ?case
  proof (cases "root t \<noteq> a \<and> (\<exists>n. deref t a = Some n \<and> (state n = REGISTERED \<or> state n = STARTED)
                \<and> (\<exists>msg. getFinishMessage n = Inr msg))")
    case False
    then have "snd (finish t a b) = t"
      by (subst finish.simps) (auto split: option.splits sum.splits)
    then show ?thesis by simp
  next
    case True
    then obtain n msg where r: "root t \<noteq> a" and n: "deref t a = Some n"
      and st: "state n = REGISTERED \<or> state n = STARTED" and msg: "getFinishMessage n = Inr msg"
      by blast
    define t' where "t' = setState (writeln t msg) a FINISHED"
    from st have nf: "state n \<noteq> FINISHED" by auto
    have step: "treeProgress t t'"
      unfolding t'_def using n st by (rule treeProgress_finish_step)
    have wf': "wellFormed t'" using step wf by (rule wellFormed_progress)
    have wl': "wellLinked t'" using step wl by (rule wellLinked_progress)
    have u: "uncounted t' s = uncounted t s + (if a \<in> set (childrenAt t s) then 1 else 0)"
      unfolding t'_def using wf n nf by (rule uncounted_finished)
    from n have a_lt: "a < length (heap t)" and a_nth: "heap t ! a = n"
      by (simp_all add: deref_Some)
    have par: "parent n = Some s" if "a \<in> set (childrenAt t s)"
      using child_parent[OF wf that] a_nth by simp
    show ?thesis
    proof (cases "b \<and> (\<exists>p. parent n = Some p \<and> p \<noteq> root t')")
      case False
      then have res: "snd (finish t a b) = t'"
        using finish_step[OF r n st msg, of b] by (auto simp: t'_def split: option.splits)
      have "a \<notin> set (childrenAt t s)"
      proof
        assume in_s: "a \<in> set (childrenAt t s)"
        with ok have b by simp
        moreover from par[OF in_s] have "parent n = Some s" .
        moreover have "s \<noteq> root t'" using s0 wellFormed_root[OF wf'] by simp
        ultimately show False using False by simp
      qed
      with u res show ?thesis by simp
    next
      case True
      then obtain p where b and p: "parent n = Some p" "p \<noteq> root t'" by blast
      have res: "snd (finish t a b) = snd (onChildFinished t' p)"
        using finish_step[OF r n st msg, of b] \<open>b\<close> p by (auto simp: t'_def)
      have ih: "uncounted (snd (onChildFinished t' p)) s =
                uncounted t' s - (if p = s \<and> isSuiteAt t' p then 1 else 0)"
        using "1.IH"[OF r n _ msg t'_def \<open>b\<close> p wf' wl' s0] st by auto
      from wl a_lt p(1) a_nth have in_p: "a \<in> set (childrenAt t p)"
        unfolding wellLinked_def by blast
      then have "a \<in> set (childrenAt t' p)" by (simp only: childrenAt_progress[OF step])
      then have suite: "isSuiteAt t' p" by (rule isSuiteAt_children)
      show ?thesis
      proof (cases "p = s")
        case True
        with in_p u ih suite res show ?thesis by simp
      next
        case False
        have "a \<notin> set (childrenAt t s)"
        proof
          assume "a \<in> set (childrenAt t s)"
          from par[OF this] p(1) False show False by simp
        qed
        with u ih False res show ?thesis by simp
      qed
    qed
  qed
next
  case (2 t a)
  note wf = "2.prems"(1) and wl = "2.prems"(2) and s0 = "2.prems"(3)
  show ?case
  proof (cases "\<exists>n sf. deref t a = Some n \<and> variant n = TestSuiteNode sf")
    case False
    then have "snd (onChildFinished t a) = t"
      by (subst onChildFinished.simps) (auto split: option.splits variant.splits)
    moreover from False have "\<not> isSuiteAt t a"
      by (auto simp: isSuiteAt_def split: option.splits variant.splits)
    ultimately show ?thesis by simp
  next
    case True
    then obtain n sf where n: "deref t a = Some n" and sf: "variant n = TestSuiteNode sf" by blast
    define t' where "t' = updNode t a (\<lambda>n. n\<lparr>variant :=
            TestSuiteNode (sf\<lparr>finishedChildCount := finishedChildCount sf + 1\<rparr>)\<rparr>)"
    have t'_counted: "t' = counted t a sf" by (simp add: t'_def counted_def)
    have step: "treeProgress t t'"
      unfolding t'_def using n sf by (rule treeProgress_count_step)
    have wf': "wellFormed t'" using step wf by (rule wellFormed_progress)
    have wl': "wellLinked t'" using step wl by (rule wellLinked_progress)
    have suite: "isSuiteAt t a" using n sf by (simp add: isSuiteAt_def)
    have u: "uncounted t' s = uncounted t s - (if a = s then 1 else 0)"
      unfolding t'_counted using n sf by (rule uncounted_counted)
    show ?thesis
    proof (cases "finishedChildCount sf + 1 = length (children sf) \<and> state n \<noteq> FINISHED")
      case False
      then have "snd (onChildFinished t a) = t'"
        using onChildFinished_step[OF n sf] by (auto simp: t'_def)
      with u suite show ?thesis by simp
    next
      case True
      then have "snd (onChildFinished t a) = snd (finish t' a True)"
        using onChildFinished_step[OF n sf] by (auto simp: t'_def)
      moreover have "uncounted (snd (finish t' a True)) s = uncounted t' s"
        using "2.IH"[OF n sf t'_def _ _ wf' wl' s0] True by simp
      ultimately show ?thesis using u suite by simp
    qed
  qed
qed

lemma finishedChildCount_addChildNode [simp]:
  "finishedChildCount (addChildNode sf nm c) = finishedChildCount sf"
  by (simp add: addChildNode_def split: option.splits lookup.splits)

lemma addChild_counts:
  assumes wf: "wellFormed t" and wl: "wellLinked t"
    and new: "\<And>i p. parent (new i p nm ty loc) = p \<and> state (new i p nm ty loc) = CREATED \<and>
                (\<forall>sf. variant (new i p nm ty loc) = TestSuiteNode sf \<longrightarrow>
                   children sf = [] \<and> finishedChildCount sf = 0)"
  shows "uncounted (snd (addChild new t a nm ty loc)) s = uncounted t s"
    and "wellLinked (snd (addChild new t a nm ty loc))"
proof -
  have "uncounted (snd (addChild new t a nm ty loc)) s = uncounted t s \<and>
        wellLinked (snd (addChild new t a nm ty loc))"
  proof (cases "\<exists>n sf. deref t a = Some n \<and> variant n = TestSuiteNode sf \<and> state n \<noteq> FINISHED")
    case False
    then have "snd (addChild new t a nm ty loc) = t"
      by (intro addChild_failure) (metis option.exhaust variant.exhaust)
    with wl show ?thesis by simp
  next
    case True
    then obtain n sf where n: "deref t a = Some n" and sf: "variant n = TestSuiteNode sf"
      and st: "state n \<noteq> FINISHED" by blast
    define c where "c = length (heap t)"
    define child where "child = new (makeChildId (idPrefix t) (nextId t)) (Some a) nm ty loc"
    define sf' where "sf' = addChildNode (sf\<lparr>children := children sf @ [c]\<rparr>) nm c"
    define n' where "n' = n\<lparr>variant := TestSuiteNode sf'\<rparr>"
    define t' where "t' = t\<lparr>nextId := nextId t + 1, heap := (heap t @ [child])[a := n']\<rparr>"
    have res: "snd (addChild new t a nm ty loc) = t'"
      using addChild_success[OF n sf st, of new nm ty loc]
      by (simp add: t'_def n'_def sf'_def child_def c_def)
    from n have a: "a < c" and na: "heap t ! a = n" by (simp_all add: deref_Some c_def)
    have len: "length (heap t') = Suc c" by (simp add: t'_def c_def)
    have d: "deref t' b = (if b = a then Some n' else if b = c then Some child else deref t b)"
      for b
      using a by (auto simp: deref_def t'_def c_def nth_list_update nth_append)
    have none: "deref t c = None" by (simp add: deref_def c_def)
    have ch': "children sf' = children sf @ [c]" and k': "finishedChildCount sf' = finishedChildCount sf"
      by (simp_all add: sf'_def)
    have child: "parent child = Some a" "state child = CREATED"
      "\<And>x. variant child = TestSuiteNode x \<Longrightarrow> children x = [] \<and> finishedChildCount x = 0"
      using new by (simp_all add: child_def)
    have fin: "(stateAt t' b = Some FINISHED) = (stateAt t b = Some FINISHED)" for b
      using n none child(2) by (simp add: stateAt_def d n'_def)
    have kids: "childrenAt t' b =
        (if b = a then children sf @ [c] else if b = c then [] else childrenAt t b)" for b
    proof -
      have "childrenAt t' c = []"
        using a child(3) by (cases "variant child") (simp_all add: childrenAt_def d)
      moreover have "childrenAt t' a = children sf @ [c]"
        by (simp add: childrenAt_def d n'_def ch')
      moreover have "childrenAt t' b = childrenAt t b" if "b \<noteq> a" "b \<noteq> c"
        using that by (simp add: childrenAt_def d)
      ultimately show ?thesis by simp
    qed
    have old: "childrenAt t a = children sf" "childrenAt t c = []"
      using n sf none by (simp_all add: childrenAt_def)
    have mono: "set (childrenAt t b) \<subseteq> set (childrenAt t' b)" for b
      using kids[of b] old by auto
    have count: "finishedChildren t' x = finishedChildren t x" for x
      by (simp only: finishedChildren_def fin)
    have u: "uncounted t' s = uncounted t s"
    proof -
      consider "s = a" | "s = c" | "s \<noteq> a" "s \<noteq> c" by blast
      then show ?thesis
      proof cases
        case 1
        have nc: "stateAt t c \<noteq> Some FINISHED" using none by (simp add: stateAt_def)
        have "finishedChildren t' sf' = finishedChildren t sf"
          unfolding finishedChildren_def fin ch' using nc by simp
        with 1 n sf show ?thesis by (simp add: uncounted_def d n'_def k')
      next
        case 2
        with a have "s \<noteq> a" by simp
        with 2 none child(3) show ?thesis
          by (cases "variant child") (simp_all add: uncounted_def d finishedChildren_def)
      next
        case 3
        then show ?thesis
          by (simp add: uncounted_def d count split: option.splits variant.splits)
      qed
    qed
    have par: "parent (heap t' ! b) = (if b = c then Some a else parent (heap t ! b))"
      if "b < Suc c" for b
      using that a na child(1)
      by (auto simp: t'_def c_def nth_list_update nth_append n'_def)
    have "wellLinked t'" unfolding wellLinked_def
    proof (intro allI impI)
      fix b q
      assume b: "b < length (heap t')" and q: "parent (heap t' ! b) = Some q"
      from b len have b': "b < Suc c" by simp
      show "b \<in> set (childrenAt t' q)"
      proof (cases "b = c")
        case True
        with q par[OF b'] have "q = a" by simp
        with True kids[of a] show ?thesis by simp
      next
        case False
        with b' have "b < length (heap t)" by (simp add: c_def)
        moreover from False q par[OF b'] have "parent (heap t ! b) = Some q" by simp
        ultimately have "b \<in> set (childrenAt t q)" using wl unfolding wellLinked_def by blast
        with mono[of q] show ?thesis by blast
      qed
    qed
    with u res show ?thesis by simp
  qed
  then show "uncounted (snd (addChild new t a nm ty loc)) s = uncounted t s"
    and "wellLinked (snd (addChild new t a nm ty loc))" by blast+
qed

lemma call_heap:
  "heap (snd (call st t StartNotify)) = heap t"
  "heap (snd (call st t (UpdateRootNode nm comment location))) = heap t"
  "heap (snd (call st t (AddTotalTestCount k))) = heap t"
  "heap (snd (call st t TestingStarted)) = heap t"
  "heap (snd (call st t TestingFinished)) = heap t"
  by (simp_all add: startNotify_def updateRootNode_def addTotalTestCount_def testingStarted_def
      testingFinished_def Let_def split: option.splits)

lemma keepsCount_refl: "keepsCount s t t"
  by (simp add: keepsCount_def treeProgress_refl)

lemma keepsCount_trans:
  assumes "keepsCount s t t'" and "keepsCount s t' t''"
  shows "keepsCount s t t''"
proof -
  from assms have p: "treeProgress t t'" "treeProgress t' t''" by (simp_all add: keepsCount_def)
  then have "treeProgress t t''" by (rule treeProgress_trans)
  moreover have "uncounted t s \<le> uncounted t'' s" if w: "wellFormed t" "wellLinked t"
  proof -
    from p(1) w(1) have "wellFormed t'" by (rule wellFormed_progress)
    moreover from p(1) w(2) have "wellLinked t'" by (rule wellLinked_progress)
    ultimately have "uncounted t' s \<le> uncounted t'' s" using assms(2) by (simp add: keepsCount_def)
    moreover from assms(1) w have "uncounted t s \<le> uncounted t' s" by (simp add: keepsCount_def)
    ultimately show ?thesis by simp
  qed
  ultimately show ?thesis by (simp add: keepsCount_def)
qed

lemma finish_keepsCount:
  assumes s0: "s \<noteq> 0"
  shows "keepsCount s t (snd (finish t a b))"
proof -
  have "uncounted t s \<le> uncounted (snd (finish t a b)) s" if wf: "wellFormed t" and wl: "wellLinked t"
  proof (cases b)
    case True
    with finish_uncounted(1)[OF wf wl s0, of b a] show ?thesis by simp
  next
    case False
    show ?thesis
    proof (cases "root t \<noteq> a \<and> (\<exists>n. deref t a = Some n \<and> (state n = REGISTERED \<or> state n = STARTED)
                \<and> (\<exists>msg. getFinishMessage n = Inr msg))")
      case False
      then have "snd (finish t a b) = t"
        by (subst finish.simps) (auto split: option.splits sum.splits)
      then show ?thesis by simp
    next
      case True
      then obtain n msg where r: "root t \<noteq> a" and n: "deref t a = Some n"
        and st: "state n = REGISTERED \<or> state n = STARTED" and msg: "getFinishMessage n = Inr msg"
        by blast
      from st have nf: "state n \<noteq> FINISHED" by auto
      have "snd (finish t a b) = setState (writeln t msg) a FINISHED"
        using finish_step[OF r n st msg, of b] \<open>\<not> b\<close> by simp
      with uncounted_finished[OF wf n nf, of msg s] show ?thesis by simp
    qed
  qed
  then show ?thesis by (simp add: keepsCount_def finish_progress)
qed

lemma forEachChild_keepsCount:
  assumes "\<And>t c. keepsCount s t (snd (f t c))"
  shows "keepsCount s t (snd (forEachChild f t cs))"
proof (induction cs arbitrary: t)
  case Nil
  show ?case by (simp add: keepsCount_refl)
next
  case (Cons c cs)
  obtain r t' where f: "f t c = (r, t')" by (cases "f t c")
  with assms[of t c] have p: "keepsCount s t t'" by simp
  show ?case
  proof (cases r)
    case (Inl e)
    with f p show ?thesis by simp
  next
    case (Inr u)
    with f have "snd (forEachChild f t (c # cs)) = snd (forEachChild f t' cs)" by simp
    with p Cons.IH[of t'] show ?thesis by (auto intro: keepsCount_trans)
  qed
qed

lemma finishIfStarted_keepsCount:
  assumes s0: "s \<noteq> 0"
  shows "keepsCount s t (snd (finishIfStarted depth t a))"
proof (induction depth arbitrary: t a)
  case 0
  show ?case by (simp add: keepsCount_refl)
next
  case (Suc depth)
  have loop: "keepsCount s t (snd (forEachChild (finishIfStarted depth) t cs))" for cs
    by (rule forEachChild_keepsCount) (rule Suc.IH)
  show ?case
  proof (cases "deref t a")
    case None
    then show ?thesis by (simp add: keepsCount_refl)
  next
    case (Some n)
    show ?thesis
    proof (cases "variant n")
      case (TestNode l)
      with Some show ?thesis by (simp add: keepsCount_refl)
    next
      case (TestSuiteNode sf)
      obtain r t' where l: "forEachChild (finishIfStarted depth) t (children sf) = (r, t')"
        by (cases "forEachChild (finishIfStarted depth) t (children sf)")
      with loop[of "children sf"] have p: "keepsCount s t t'" by simp
      show ?thesis
      proof (cases r)
        case (Inl e)
        with Some TestSuiteNode l p show ?thesis by (simp add: keepsCount_refl)
      next
        case (Inr u)
        have "keepsCount s t (snd (finish t' a False))"
          using p finish_keepsCount[OF s0, of t' a False] by (rule keepsCount_trans)
        with Some TestSuiteNode l Inr show ?thesis by (simp add: keepsCount_refl)
      qed
    qed
  qed
qed

lemma filter_length_mono:
  "(\<And>x. x \<in> set xs \<Longrightarrow> P x \<Longrightarrow> Q x) \<Longrightarrow> length (filter P xs) \<le> length (filter Q xs)"
  by (induction xs) auto

lemma quiet_progress_le:
  assumes p: "treeProgress t t'"
    and q: "\<forall>x \<in> set (childrenAt t s). stateAt t' x = Some FINISHED \<longrightarrow> stateAt t x = Some FINISHED"
  shows "uncounted t' s \<le> uncounted t s"
proof (cases "s < length (heap t)")
  case False
  with p show ?thesis by (simp add: uncounted_def deref_def treeProgress_def)
next
  case True
  with p have vp: "variantProgress (variant (heap t ! s)) (variant (heap t' ! s))"
    and len: "length (heap t') = length (heap t)"
    by (simp_all add: treeProgress_def nodeProgress_def)
  show ?thesis
  proof (cases "variant (heap t ! s)")
    case (TestNode l)
    with vp have "variant (heap t' ! s) = TestNode l" by (cases "variant (heap t' ! s)") simp_all
    with TestNode True len show ?thesis by (simp add: uncounted_def deref_def)
  next
    case (TestSuiteNode sf)
    with vp obtain sf' where sf': "variant (heap t' ! s) = TestSuiteNode sf'"
      and ch: "children sf' = children sf" and k: "finishedChildCount sf \<le> finishedChildCount sf'"
      by (cases "variant (heap t' ! s)") simp_all
    from True TestSuiteNode have "childrenAt t s = children sf"
      by (simp add: childrenAt_def deref_def)
    with q have "finishedChildren t' sf' \<le> finishedChildren t sf"
      unfolding finishedChildren_def ch by (intro filter_length_mono) simp
    with k True len TestSuiteNode sf' show ?thesis by (simp add: uncounted_def deref_def)
  qed
qed

lemma call_counts:
  assumes wf: "wellFormed t" and wl: "wellLinked t" and s0: "s \<noteq> 0"
  shows "wellLinked (snd (call st t c)) \<and>
         uncounted t s \<le> uncounted (snd (call st t c)) s \<and>
         (\<not> finishesSilently st t c s \<longrightarrow> uncounted (snd (call st t c)) s = uncounted t s)"
proof -
  have same: ?thesis if "\<And>x. skeleton (snd (call st t c)) x = skeleton t x"
    using skeleton_cong[of "snd (call st t c)" t, OF that] wl by simp
  show ?thesis
  proof (cases c)
    case StartNotify
    show ?thesis by (rule same) (simp only: StartNotify skeleton_heap[OF call_heap(1)])
  next
    case (UpdateRootNode nm comment location)
    show ?thesis by (rule same) (simp only: UpdateRootNode skeleton_heap[OF call_heap(2)])
  next
    case (AddTotalTestCount k)
    show ?thesis by (rule same) (simp only: AddTotalTestCount skeleton_heap[OF call_heap(3)])
  next
    case TestingStarted
    show ?thesis by (rule same) (simp only: TestingStarted skeleton_heap[OF call_heap(4)])
  next
    case TestingFinished
    show ?thesis by (rule same) (simp only: TestingFinished skeleton_heap[OF call_heap(5)])
  next
    case (Register a)
    show ?thesis by (rule same) (simp add: Register register_skeleton)
  next
    case (Start a)
    show ?thesis by (rule same) (simp add: Start start_skeleton)
  next
    case (SetOutcome a oc d m ds e ac ef af)
    show ?thesis by (rule same) (simp add: SetOutcome setOutcome_skeleton)
  next
    case (SetMetainfo a m)
    show ?thesis by (rule same) (simp add: SetMetainfo setMetainfo_skeleton)
  next
    case (AddStdErr a e)
    show ?thesis by (rule same) (simp add: AddStdErr addStdErr_skeleton)
  next
    case (AddTestChild a nm ty loc)
    have new: "parent (newTestNode i p nm ty loc) = p \<and> state (newTestNode i p nm ty loc) = CREATED \<and>
                (\<forall>sf. variant (newTestNode i p nm ty loc) = TestSuiteNode sf \<longrightarrow>
                   children sf = [] \<and> finishedChildCount sf = 0)" for i p
      by (simp add: newTestNode_def)
    from addChild_counts(1)[where new=newTestNode and nm=nm and ty=ty and loc=loc, OF wf wl new]
      addChild_counts(2)[where new=newTestNode and nm=nm and ty=ty and loc=loc, OF wf wl new] AddTestChild
    show ?thesis by (simp add: addTestChild_def)
  next
    case (AddTestSuiteChild a nm ty loc)
    have new: "parent (newTestSuiteNode i p nm ty loc) = p \<and>
               state (newTestSuiteNode i p nm ty loc) = CREATED \<and>
                (\<forall>sf. variant (newTestSuiteNode i p nm ty loc) = TestSuiteNode sf \<longrightarrow>
                   children sf = [] \<and> finishedChildCount sf = 0)" for i p
      by (auto simp: newTestSuiteNode_def)
    from addChild_counts(1)[where new=newTestSuiteNode and nm=nm and ty=ty and loc=loc, OF wf wl new]
      addChild_counts(2)[where new=newTestSuiteNode and nm=nm and ty=ty and loc=loc, OF wf wl new] AddTestSuiteChild
    show ?thesis by (simp add: addTestSuiteChild_def)
  next
    case (Finish a b)
    let ?t' = "snd (finish t a b)"
    have p: "treeProgress t ?t'" by (rule finish_progress)
    have "wellLinked ?t'" using p wl by (rule wellLinked_progress)
    moreover have le: "uncounted t s \<le> uncounted ?t' s"
      using finish_keepsCount[OF s0, of t a b] wf wl by (simp add: keepsCount_def)
    moreover have "uncounted ?t' s = uncounted t s" if q: "\<not> finishesSilently st t (Finish a b) s"
    proof (cases b)
      case True
      with wf wl s0 show ?thesis by (intro finish_uncounted(1)) simp_all
    next
      case False
      with q have "\<forall>x \<in> set (childrenAt t s).
          stateAt ?t' x = Some FINISHED \<longrightarrow> stateAt t x = Some FINISHED"
        by (auto simp: finishesSilently_def)
      with p have "uncounted ?t' s \<le> uncounted t s" by (rule quiet_progress_le)
      with le show ?thesis by simp
    qed
    ultimately show ?thesis using Finish by simp
  next
    case (FinishIfStarted a)
    let ?t' = "snd (finishIfStarted st t a)"
    have p: "treeProgress t ?t'" by (rule finishIfStarted_progress)
    have "wellLinked ?t'" using p wl by (rule wellLinked_progress)
    moreover have le: "uncounted t s \<le> uncounted ?t' s"
      using finishIfStarted_keepsCount[OF s0, of t st a] wf wl by (simp add: keepsCount_def)
    moreover have "uncounted ?t' s = uncounted t s"
      if q: "\<not> finishesSilently st t (FinishIfStarted a) s"
    proof -
      from q have "\<forall>x \<in> set (childrenAt t s).
          stateAt ?t' x = Some FINISHED \<longrightarrow> stateAt t x = Some FINISHED"
        by (auto simp: finishesSilently_def)
      with p have "uncounted ?t' s \<le> uncounted t s" by (rule quiet_progress_le)
      with le show ?thesis by simp
    qed
    ultimately show ?thesis using FinishIfStarted by simp
  qed
qed

lemma run_counts:
  assumes "wellFormed t" and "wellLinked t" and "s \<noteq> 0"
  shows "uncounted t s \<le> uncounted (run st t cs) s \<and>
         (allPropagated st t cs s \<longrightarrow> uncounted (run st t cs) s = uncounted t s)"
  using assms
proof (induction cs arbitrary: t)
  case Nil
  then show ?case by simp
next
  case (Cons c cs)
  let ?t1 = "snd (call st t c)"
  note step = call_counts[OF Cons.prems, where st=st and c=c]
  have wf1: "wellFormed ?t1" using Cons.prems(1) by (rule call_wellFormed)
  from step have wl1: "wellLinked ?t1" by blast
  note tail = Cons.IH[OF wf1 wl1 Cons.prems(3)]
  have "uncounted t s \<le> uncounted (run st ?t1 cs) s" using step tail by linarith
  moreover have "uncounted (run st ?t1 cs) s = uncounted t s" if "allPropagated st t (c # cs) s"
    using that step tail by simp
  ultimately show ?case by simp
qed

lemma newTree_counts: "wellLinked (newTree prefix)" "uncounted (newTree prefix) s = 0"
  by (auto simp: wellLinked_def uncounted_def newTree_def newTestSuiteNode_def deref_def
      finishedChildren_def)

lemma counter_at_most_finished_children:
  assumes reach: "t = run stack (newTree prefix) calls"
    and s: "deref t s = Some sn" and v: "variant sn = TestSuiteNode sf" and r: "s \<noteq> root t"
  shows "finishedChildCount sf \<le> finishedChildren t sf"
    and "allPropagated stack (newTree prefix) calls s \<Longrightarrow>
         finishedChildCount sf = finishedChildren t sf"
proof -
  have wf: "wellFormed t" unfolding reach by (rule run_wellFormed) (rule newTree_wellFormed)
  with r have s0: "s \<noteq> 0" using wellFormed_root by simp
  note counts = run_counts[OF newTree_wellFormed newTree_counts(1) s0, of prefix stack calls,
      folded reach, unfolded newTree_counts(2)]
  from counts have "0 \<le> uncounted t s" by blast
  with s v show "finishedChildCount sf \<le> finishedChildren t sf" by (simp add: uncounted_def)
  assume "allPropagated stack (newTree prefix) calls s"
  with counts have "uncounted t s = 0" by blast
  with s v show "finishedChildCount sf = finishedChildren t sf" by (simp add: uncounted_def)
qed

text \<open>Counting the finished children of a suite one of whose children is not finished.\<close>

lemma all_others_finished:
  assumes d: "distinct cs" and c: "c \<in> set cs" and nf: "\<not> P c"
  shows "(length (filter P cs) + 1 = length cs) = (\<forall>x \<in> set cs. x \<noteq> c \<longrightarrow> P x)"
    and "(\<exists>x \<in> set cs. x \<noteq> c \<and> \<not> P x) \<Longrightarrow> length (filter P cs) + 1 < length cs"
proof -
  define N where "N = set (filter (\<lambda>x. \<not> P x) cs)"
  have mem: "x \<in> N \<longleftrightarrow> x \<in> set cs \<and> \<not> P x" for x by (simp add: N_def)
  have finN: "finite N" by (simp add: N_def)
  have sum: "length (filter P cs) + length (filter (\<lambda>x. \<not> P x) cs) = length cs"
    by (rule sum_length_filter_compl)
  have dn: "distinct (filter (\<lambda>x. \<not> P x) cs)" using d by simp
  have cin: "c \<in> N" using c nf by (simp add: mem)
  have card: "length (filter (\<lambda>x. \<not> P x) cs) = card N"
    unfolding N_def using distinct_card[OF dn] by (simp only:)
  show "(length (filter P cs) + 1 = length cs) = (\<forall>x \<in> set cs. x \<noteq> c \<longrightarrow> P x)"
  proof
    assume "length (filter P cs) + 1 = length cs"
    with sum card have "card N = 1" by simp
    then obtain y where "N = {y}" by (auto simp: card_1_singleton_iff)
    with cin have "N = {c}" by blast
    with mem show "\<forall>x \<in> set cs. x \<noteq> c \<longrightarrow> P x" by blast
  next
    assume "\<forall>x \<in> set cs. x \<noteq> c \<longrightarrow> P x"
    with cin mem have "N = {c}" by blast
    with card have "length (filter (\<lambda>x. \<not> P x) cs) = 1" by simp
    with sum show "length (filter P cs) + 1 = length cs" by simp
  qed
  show "length (filter P cs) + 1 < length cs" if "\<exists>x \<in> set cs. x \<noteq> c \<and> \<not> P x"
  proof -
    from that obtain x where x: "x \<in> set cs" "x \<noteq> c" "\<not> P x" by blast
    with cin mem have "{c, x} \<subseteq> N" by blast
    then have "card {c, x} \<le> card N" using finN by (intro card_mono)
    with x(2) card have "2 \<le> length (filter (\<lambda>x. \<not> P x) cs)" by simp
    with sum show ?thesis by simp
  qed
qed

section \<open>A suite writes its finish message once\<close>

lemma suiteFinishMessage_chars:
  "suiteFinishMessage i ! 11 = of_char CHR ''t''"
  "suiteFinishMessage i ! 16 = of_char CHR ''u''"
  "suiteFinishMessage i ! 20 = of_char CHR ''F''"
  by (simp_all add: suiteFinishMessage_def lit_def)

lemma init_message_differs:
  assumes "getInitMessage t n running = Inr msg"
  shows "msg \<noteq> suiteFinishMessage i"
proof -
  from assms have "msg ! 16 = of_char CHR ''t'' \<or> msg ! 20 = of_char CHR ''S''"
    by (cases "variant n")
       (auto simp: getInitMessage_def getStartCommandName_def Let_def lit_def
          split: option.splits sum.splits)
  with suiteFinishMessage_chars[of i] show ?thesis by auto
qed

lemma start_message_differs:
  assumes "getStartMessage t n = Inr msg"
  shows "msg \<noteq> suiteFinishMessage i"
proof (cases "state n = CREATED")
  case True
  with assms show ?thesis by (simp add: getStartMessage_def init_message_differs)
next
  case False
  with assms have "msg ! 16 = of_char CHR ''t'' \<or> msg ! 20 = of_char CHR ''S''"
    by (cases "variant n")
       (auto simp: getStartMessage_def getStartCommandName_def lit_def split: if_splits)
  with suiteFinishMessage_chars[of i] show ?thesis by auto
qed

lemma register_message_differs:
  assumes "getRegisterMessage t n = Inr msg"
  shows "msg \<noteq> suiteFinishMessage i"
  using assms by (auto simp: getRegisterMessage_def init_message_differs split: if_splits)


lemma idAt_inj:
  assumes "idToString (idAt prefix a) = idToString (idAt prefix b)"
  shows "a = b"
proof -
  have zero: "idToString (NumId 0) \<noteq> idToString (makeChildId prefix x)" if "x \<noteq> 0" for x
  proof (cases prefix)
    case None
    with that show ?thesis using digitsOf_inj[of 0 x] by (auto simp: makeChildId_def)
  next
    case (Some p)
    have "length (digitsOf 0) = 1" by (subst digitsOf.simps) simp
    moreover have "length (p @ lit ''-'' @ digitsOf x) \<ge> 2"
      using digitsOf_nonempty[of x] by (cases "digitsOf x") (simp_all add: lit_def)
    ultimately show ?thesis using Some by (auto simp: makeChildId_def)
  qed
  show ?thesis
  proof (cases "a = 0 \<or> b = 0")
    case True
    with assms zero[of a] zero[of b] show ?thesis
      by (cases "a = 0"; cases "b = 0") (auto simp: idAt_def)
  next
    case False
    with assms have "idToString (makeChildId prefix a) = idToString (makeChildId prefix b)"
      by (simp add: idAt_def)
    then show ?thesis by (cases prefix) (auto simp: makeChildId_def dest: digitsOf_inj)
  qed
qed

lemma suiteLine_inj: "suiteFinishMessage (idAt prefix a) @ [0x0A] = suiteLine prefix s \<Longrightarrow> a = s"
  unfolding suiteLine_def by (rule idAt_inj, rule suiteFinishMessage_inj) simp

lemma wellFormed_idAt:
  "wellFormed t \<Longrightarrow> deref t a = Some n \<Longrightarrow> id_node n = idAt (idPrefix t) a"
  using wellFormed_id[of t a] by (simp add: idAt_def deref_Some)

lemma finishedSuite_skeleton:
  "finishedSuite t s = (case skeleton t s of Some (f, p, Some k) \<Rightarrow> f | other \<Rightarrow> False)"
  by (cases "deref t s"; cases "variant (the (deref t s))")
     (simp_all add: finishedSuite_def isSuiteAt_def stateAt_def skeleton_def)

lemma noSuiteLine_count:
  assumes "noSuiteLine t t'"
  shows "count_list (written t') (suiteLine (idPrefix t') s) =
         count_list (written t) (suiteLine (idPrefix t) s)"
proof -
  from assms obtain ys where p: "idPrefix t' = idPrefix t" and w: "written t' = written t @ ys"
    and ys: "\<forall>y \<in> set ys. \<forall>i. y \<noteq> suiteFinishMessage i @ [0x0A]"
    unfolding noSuiteLine_def by blast
  from ys have "suiteLine (idPrefix t) s \<notin> set ys" unfolding suiteLine_def by blast
  then have "count_list ys (suiteLine (idPrefix t) s) = 0" by (simp add: count_list_0_iff)
  then show ?thesis unfolding p w by (simp only: count_list_append)
qed

lemma once_same:
  assumes "noSuiteLine t t'" and "\<And>a. skeleton t' a = skeleton t a"
  shows "once t' s = once t s"
proof -
  have "finishedSuite t' s = finishedSuite t s"
    by (simp only: finishedSuite_skeleton assms(2))
  then show ?thesis by (simp only: once_def noSuiteLine_count[OF assms(1)])
qed

lemma noSuiteLine_refl: "noSuiteLine t t"
  by (simp add: noSuiteLine_def)

lemma noSuiteLine_writeln: "(\<And>i. m \<noteq> suiteFinishMessage i) \<Longrightarrow> noSuiteLine t (writeln t m)"
  by (simp add: noSuiteLine_def)

lemma noSuiteLine_silent:
  "written t' = written t \<Longrightarrow> idPrefix t' = idPrefix t \<Longrightarrow> noSuiteLine t t'"
  by (simp add: noSuiteLine_def)

lemma differs_at: "a ! k \<noteq> b ! k \<Longrightarrow> a \<noteq> b"
  by auto

lemma tree_calls_noSuiteLine:
  "noSuiteLine t (startNotify t)"
  "noSuiteLine t (updateRootNode t nm comment location)"
  "noSuiteLine t (addTotalTestCount t k)"
  "noSuiteLine t (testingStarted t)"
  "noSuiteLine t (testingFinished t)"
proof -
  show "noSuiteLine t (startNotify t)"
    unfolding startNotify_def
    by (rule noSuiteLine_writeln, rule differs_at[of _ 11])
       (simp add: suiteFinishMessage_chars, simp add: lit_def)
  show "noSuiteLine t (testingStarted t)"
    unfolding testingStarted_def
    by (rule noSuiteLine_writeln, rule differs_at[of _ 16])
       (simp add: suiteFinishMessage_chars, simp add: lit_def)
  show "noSuiteLine t (testingFinished t)"
    unfolding testingFinished_def
    by (rule noSuiteLine_writeln, rule differs_at[of _ 16])
       (simp add: suiteFinishMessage_chars, simp add: lit_def)
  show "noSuiteLine t (addTotalTestCount t k)"
  proof (cases "\<exists>n. k = Some n \<and> n > 0")
    case False
    then have "addTotalTestCount t k = t"
      by (auto simp: addTotalTestCount_def split: option.splits)
    then show ?thesis by (simp add: noSuiteLine_refl)
  next
    case True
    then obtain n where "k = Some n" "n > 0" by blast
    then have eq: "addTotalTestCount t k =
        writeln t (lit ''##teamcity[testCount count='' @ [0x27] @ numberToString n @ [0x27] @ lit '']'')"
      by (simp add: addTotalTestCount_def)
    show ?thesis unfolding eq
      by (rule noSuiteLine_writeln, rule differs_at[of _ 16])
         (simp add: suiteFinishMessage_chars, simp add: lit_def)
  qed
  show "noSuiteLine t (updateRootNode t nm comment location)"
  proof -
    define rest where "rest = [0x27] @ escapeAttributeValue nm @
        (case comment of None \<Rightarrow> []
         | Some c \<Rightarrow> [0x27] @ lit '' comment='' @ [0x27] @ escapeAttributeValue c) @
        (case location of None \<Rightarrow> []
         | Some l \<Rightarrow> [0x27] @ lit '' location='' @ [0x27] @ escapeAttributeValue l) @
        [0x27] @ lit '']''"
    have eq: "updateRootNode t nm comment location =
        writeln t (lit ''##teamcity[rootName name='' @ rest)"
      by (cases comment; cases location) (simp_all add: updateRootNode_def Let_def rest_def)
    show ?thesis unfolding eq
      by (rule noSuiteLine_writeln, rule differs_at[of _ 11])
         (simp add: suiteFinishMessage_chars, simp add: lit_def)
  qed
qed

lemma register_noSuiteLine: "noSuiteLine t (snd (register t a))"
proof (cases "\<exists>n str. deref t a = Some n \<and> getRegisterMessage t n = Inr str")
  case False
  then have "snd (register t a) = t"
    by (auto simp: register_def split: option.splits sum.splits)
  then show ?thesis by (simp add: noSuiteLine_refl)
next
  case True
  then obtain n str where n: "deref t a = Some n" and m: "getRegisterMessage t n = Inr str"
    by blast
  then have "snd (register t a) = setState (writeln t str) a REGISTERED"
    by (simp add: register_def)
  moreover have "str \<noteq> suiteFinishMessage i" for i
    using m by (rule register_message_differs)
  ultimately show ?thesis by (simp add: noSuiteLine_def)
qed

lemma start_noSuiteLine: "noSuiteLine t (snd (start t a))"
proof (cases "\<exists>n str. deref t a = Some n \<and> state n \<noteq> FINISHED \<and> state n \<noteq> STARTED \<and>
                getStartMessage t n = Inr str")
  case False
  then have "snd (start t a) = t"
    by (auto simp: start_def split: option.splits sum.splits)
  then show ?thesis by (simp add: noSuiteLine_refl)
next
  case True
  then obtain n str where n: "deref t a = Some n" "state n \<noteq> FINISHED" "state n \<noteq> STARTED"
    and m: "getStartMessage t n = Inr str" by blast
  then have "snd (start t a) = setState (writeln t str) a STARTED"
    by (simp add: start_def)
  moreover have "str \<noteq> suiteFinishMessage i" for i
    using m by (rule start_message_differs)
  ultimately show ?thesis by (simp add: noSuiteLine_def)
qed

lemma addStdErr_noSuiteLine: "noSuiteLine t (snd (addStdErr t a e))"
proof (cases "\<exists>n l x. deref t a = Some n \<and> variant n = TestNode l \<and> e = Some x")
  case False
  then have "snd (addStdErr t a e) = t"
    by (auto simp: addStdErr_def split: option.splits variant.splits)
  then show ?thesis by (simp add: noSuiteLine_refl)
next
  case True
  then obtain n l x where n: "deref t a = Some n" "variant n = TestNode l" "e = Some x" by blast
  then have eq: "snd (addStdErr t a e) =
      writeln t (lit ''##teamcity[testStdErr nodeId='' @ [0x27]
                       @ idToString (id_node n) @ [0x27] @ lit '' out='' @ [0x27]
                       @ escapeAttributeValue x @ [0x27] @ lit '']'')"
    by (simp add: addStdErr_def)
  show ?thesis unfolding eq
    by (rule noSuiteLine_writeln, rule differs_at[of _ 16])
       (simp add: suiteFinishMessage_chars, simp add: lit_def)
qed

lemma setOutcome_noSuiteLine: "noSuiteLine t (snd (setOutcome t a oc d m ds e ac ef af))"
  by (rule noSuiteLine_silent)
     (auto simp: setOutcome_def Let_def split: option.splits variant.splits)

lemma setMetainfo_noSuiteLine: "noSuiteLine t (snd (setMetainfo t a m))"
  by (rule noSuiteLine_silent)
     (auto simp: setMetainfo_def split: option.splits variant.splits)

lemma addChild_once:
  assumes new: "\<And>i p. state (new i p nm ty loc) = CREATED"
    and o: "once t s"
  shows "once (snd (addChild new t a nm ty loc)) s"
proof (cases "\<exists>n sf. deref t a = Some n \<and> variant n = TestSuiteNode sf \<and> state n \<noteq> FINISHED")
  case False
  then have "snd (addChild new t a nm ty loc) = t"
    by (intro addChild_failure) (metis option.exhaust variant.exhaust)
  with o show ?thesis by simp
next
  case True
  then obtain n sf where n: "deref t a = Some n" and sf: "variant n = TestSuiteNode sf"
    and st: "state n \<noteq> FINISHED" by blast
  define c where "c = length (heap t)"
  define child where "child = new (makeChildId (idPrefix t) (nextId t)) (Some a) nm ty loc"
  define sf' where "sf' = addChildNode (sf\<lparr>children := children sf @ [c]\<rparr>) nm c"
  define n' where "n' = n\<lparr>variant := TestSuiteNode sf'\<rparr>"
  define t' where "t' = t\<lparr>nextId := nextId t + 1, heap := (heap t @ [child])[a := n']\<rparr>"
  have res: "snd (addChild new t a nm ty loc) = t'"
    using addChild_success[OF n sf st, of new nm ty loc]
    by (simp add: t'_def n'_def sf'_def child_def c_def)
  from n have a: "a < c" by (simp add: deref_Some c_def)
  have d: "deref t' b = (if b = a then Some n' else if b = c then Some child else deref t b)"
    for b
    using a by (auto simp: deref_def t'_def c_def nth_list_update nth_append)
  have none: "deref t c = None" by (simp add: deref_def c_def)
  have child: "state child = CREATED" using new by (simp add: child_def)
  have "finishedSuite t' s = finishedSuite t s"
    using n sf none child a
    by (simp add: finishedSuite_def isSuiteAt_def stateAt_def d n'_def)
  moreover have "written t' = written t" "idPrefix t' = idPrefix t" by (simp_all add: t'_def)
  ultimately show ?thesis using o unfolding res by (simp add: once_def)
qed

lemma finish_once:
  "wellFormed t \<Longrightarrow> once t s \<Longrightarrow> once (snd (finish t a b)) s"
  "wellFormed t \<Longrightarrow> once t s \<Longrightarrow> once (snd (onChildFinished t a)) s"
proof (induction t a b and t a rule: finish_onChildFinished.induct)
  case (1 t a b)
  note wf = "1.prems"(1) and o = "1.prems"(2)
  show ?case
  proof (cases "root t \<noteq> a \<and> (\<exists>n. deref t a = Some n \<and> (state n = REGISTERED \<or> state n = STARTED)
                \<and> (\<exists>msg. getFinishMessage n = Inr msg))")
    case False
    then have "snd (finish t a b) = t"
      by (subst finish.simps) (auto split: option.splits sum.splits)
    with o show ?thesis by simp
  next
    case True
    then obtain n msg where r: "root t \<noteq> a" and n: "deref t a = Some n"
      and st: "state n = REGISTERED \<or> state n = STARTED" and msg: "getFinishMessage n = Inr msg"
      by blast
    define t' where "t' = setState (writeln t msg) a FINISHED"
    have step: "treeProgress t t'"
      unfolding t'_def using n st by (rule treeProgress_finish_step)
    have wf': "wellFormed t'" using step wf by (rule wellFormed_progress)
    have w': "written t' = written t @ [msg @ [0x0A]]" and p': "idPrefix t' = idPrefix t"
      by (simp_all add: t'_def)
    have o': "once t' s"
    proof (cases "s = a")
      case True
      from n st True have nf: "\<not> finishedSuite t s" by (auto simp: finishedSuite_def stateAt_def)
      with o have zero: "count_list (written t) (suiteLine (idPrefix t) s) = 0"
        by (simp add: once_def)
      show ?thesis
      proof (cases "variant n")
        case (TestNode l)
        then have "msg \<noteq> suiteFinishMessage i" for i using msg by (rule leaf_message_differs)
        then have "msg @ [0x0A] \<noteq> suiteLine (idPrefix t) s" by (simp add: suiteLine_def)
        moreover from n TestNode True have "\<not> finishedSuite t' s"
          by (simp add: finishedSuite_def isSuiteAt_def t'_def)
        ultimately show ?thesis using zero by (simp add: once_def w' p')
      next
        case (TestSuiteNode sf)
        with msg have "msg = suiteFinishMessage (id_node n)" by (simp add: getFinishMessage_suite)
        with wellFormed_idAt[OF wf n] True have "msg @ [0x0A] = suiteLine (idPrefix t) s"
          by (simp add: suiteLine_def)
        moreover from n TestSuiteNode True have "finishedSuite t' s"
          by (simp add: finishedSuite_def isSuiteAt_def t'_def)
        ultimately show ?thesis using zero by (simp add: once_def w' p')
      qed
    next
      case False
      have differs: "msg @ [0x0A] \<noteq> suiteLine (idPrefix t) s"
      proof (cases "variant n")
        case (TestNode l)
        then have "msg \<noteq> suiteFinishMessage i" for i using msg by (rule leaf_message_differs)
        then show ?thesis by (simp add: suiteLine_def)
      next
        case (TestSuiteNode sf)
        with msg have m: "msg = suiteFinishMessage (id_node n)" by (simp add: getFinishMessage_suite)
        show ?thesis
        proof
          assume "msg @ [0x0A] = suiteLine (idPrefix t) s"
          then have "suiteFinishMessage (idAt (idPrefix t) a) @ [0x0A] = suiteLine (idPrefix t) s"
            unfolding m wellFormed_idAt[OF wf n] .
          then have "a = s" by (rule suiteLine_inj)
          with False show False by simp
        qed
      qed
      from False have "finishedSuite t' s = finishedSuite t s"
        by (simp add: finishedSuite_def isSuiteAt_def t'_def)
      with differs o show ?thesis by (simp add: once_def w' p')
    qed
    show ?thesis
    proof (cases "b \<and> (\<exists>p. parent n = Some p \<and> p \<noteq> root t')")
      case False
      then have "snd (finish t a b) = t'"
        using finish_step[OF r n st msg, of b] by (auto simp: t'_def split: option.splits)
      with o' show ?thesis by simp
    next
      case True
      then obtain p where b and p: "parent n = Some p" "p \<noteq> root t'" by blast
      have "snd (finish t a b) = snd (onChildFinished t' p)"
        using finish_step[OF r n st msg, of b] \<open>b\<close> p by (auto simp: t'_def)
      moreover have "once (snd (onChildFinished t' p)) s"
        using "1.IH"[OF r n _ msg t'_def \<open>b\<close> p wf' o'] st by auto
      ultimately show ?thesis by simp
    qed
  qed
next
  case (2 t a)
  note wf = "2.prems"(1) and o = "2.prems"(2)
  show ?case
  proof (cases "\<exists>n sf. deref t a = Some n \<and> variant n = TestSuiteNode sf")
    case False
    then have "snd (onChildFinished t a) = t"
      by (subst onChildFinished.simps) (auto split: option.splits variant.splits)
    with o show ?thesis by simp
  next
    case True
    then obtain n sf where n: "deref t a = Some n" and sf: "variant n = TestSuiteNode sf" by blast
    define t' where "t' = updNode t a (\<lambda>n. n\<lparr>variant :=
            TestSuiteNode (sf\<lparr>finishedChildCount := finishedChildCount sf + 1\<rparr>)\<rparr>)"
    have step: "treeProgress t t'"
      unfolding t'_def using n sf by (rule treeProgress_count_step)
    have wf': "wellFormed t'" using step wf by (rule wellFormed_progress)
    have "finishedSuite t' s = finishedSuite t s"
      using n sf by (cases "s = a") (auto simp: finishedSuite_def isSuiteAt_def stateAt_def t'_def)
    with o have o': "once t' s" by (simp add: once_def t'_def)
    show ?thesis
    proof (cases "finishedChildCount sf + 1 = length (children sf) \<and> state n \<noteq> FINISHED")
      case False
      then have "snd (onChildFinished t a) = t'"
        using onChildFinished_step[OF n sf] by (auto simp: t'_def)
      with o' show ?thesis by simp
    next
      case True
      then have "snd (onChildFinished t a) = snd (finish t' a True)"
        using onChildFinished_step[OF n sf] by (auto simp: t'_def)
      moreover have "once (snd (finish t' a True)) s"
        using "2.IH"[OF n sf t'_def _ _ wf' o'] True by simp
      ultimately show ?thesis by simp
    qed
  qed
qed

lemma forEachChild_invariant:
  assumes "\<And>t c. P t \<Longrightarrow> P (snd (f t c))" and "P t"
  shows "P (snd (forEachChild f t cs))"
  using assms(2)
proof (induction cs arbitrary: t)
  case Nil
  then show ?case by simp
next
  case (Cons c cs)
  obtain r t' where f: "f t c = (r, t')" by (cases "f t c")
  with assms(1)[OF Cons.prems, of c] have p: "P t'" by simp
  show ?case
  proof (cases r)
    case (Inl e)
    with f p show ?thesis by simp
  next
    case (Inr u)
    with f have "snd (forEachChild f t (c # cs)) = snd (forEachChild f t' cs)" by simp
    with Cons.IH[OF p] show ?thesis by simp
  qed
qed

lemma finishIfStarted_once:
  "wellFormed t \<and> once t s \<Longrightarrow>
   wellFormed (snd (finishIfStarted depth t a)) \<and> once (snd (finishIfStarted depth t a)) s"
proof (induction depth arbitrary: t a)
  case 0
  then show ?case by simp
next
  case (Suc depth)
  have loop: "wellFormed (snd (forEachChild (finishIfStarted depth) t cs)) \<and>
               once (snd (forEachChild (finishIfStarted depth) t cs)) s" for cs
    using Suc.IH Suc.prems
    by (rule forEachChild_invariant[where P="\<lambda>t. wellFormed t \<and> once t s"])
  show ?case
  proof (cases "deref t a")
    case None
    with Suc.prems show ?thesis by simp
  next
    case (Some n)
    show ?thesis
    proof (cases "variant n")
      case (TestNode l)
      with Some Suc.prems show ?thesis by simp
    next
      case (TestSuiteNode sf)
      obtain r t' where l: "forEachChild (finishIfStarted depth) t (children sf) = (r, t')"
        by (cases "forEachChild (finishIfStarted depth) t (children sf)")
      with loop[of "children sf"] have p: "wellFormed t'" "once t' s" by simp_all
      show ?thesis
      proof (cases r)
        case (Inl e)
        with Some TestSuiteNode l p Suc.prems show ?thesis by simp
      next
        case (Inr u)
        have "wellFormed (snd (finish t' a False))"
          using finish_progress(1) p(1) by (rule wellFormed_progress)
        moreover have "once (snd (finish t' a False)) s" using p by (rule finish_once(1))
        ultimately show ?thesis using Some TestSuiteNode l Inr Suc.prems by simp
      qed
    qed
  qed
qed

lemma call_once:
  assumes wf: "wellFormed t" and o: "once t s"
  shows "once (snd (call st t c)) s"
proof -
  have same: ?thesis
    if "noSuiteLine t (snd (call st t c))" "\<And>x. skeleton (snd (call st t c)) x = skeleton t x"
    using once_same[OF that] o by simp
  show ?thesis
  proof (cases c)
    case StartNotify
    show ?thesis
      by (rule same) (simp_all only: StartNotify skeleton_heap[OF call_heap(1)],
          simp add: tree_calls_noSuiteLine)
  next
    case (UpdateRootNode nm comment location)
    show ?thesis
      by (rule same) (simp_all only: UpdateRootNode skeleton_heap[OF call_heap(2)],
          simp add: tree_calls_noSuiteLine)
  next
    case (AddTotalTestCount k)
    show ?thesis
      by (rule same) (simp_all only: AddTotalTestCount skeleton_heap[OF call_heap(3)],
          simp add: tree_calls_noSuiteLine)
  next
    case TestingStarted
    show ?thesis
      by (rule same) (simp_all only: TestingStarted skeleton_heap[OF call_heap(4)],
          simp add: tree_calls_noSuiteLine)
  next
    case TestingFinished
    show ?thesis
      by (rule same) (simp_all only: TestingFinished skeleton_heap[OF call_heap(5)],
          simp add: tree_calls_noSuiteLine)
  next
    case (Register a)
    show ?thesis by (rule same) (simp_all add: Register register_skeleton register_noSuiteLine)
  next
    case (Start a)
    show ?thesis by (rule same) (simp_all add: Start start_skeleton start_noSuiteLine)
  next
    case (SetOutcome a oc d m ds e ac ef af)
    show ?thesis
      by (rule same) (simp_all add: SetOutcome setOutcome_skeleton setOutcome_noSuiteLine)
  next
    case (SetMetainfo a m)
    show ?thesis
      by (rule same) (simp_all add: SetMetainfo setMetainfo_skeleton setMetainfo_noSuiteLine)
  next
    case (AddStdErr a e)
    show ?thesis by (rule same) (simp_all add: AddStdErr addStdErr_skeleton addStdErr_noSuiteLine)
  next
    case (AddTestChild a nm ty loc)
    have "once (snd (addChild newTestNode t a nm ty loc)) s"
      using _ o by (rule addChild_once) (simp add: newTestNode_def)
    with AddTestChild show ?thesis by (simp add: addTestChild_def)
  next
    case (AddTestSuiteChild a nm ty loc)
    have "once (snd (addChild newTestSuiteNode t a nm ty loc)) s"
      using _ o by (rule addChild_once) (simp add: newTestSuiteNode_def)
    with AddTestSuiteChild show ?thesis by (simp add: addTestSuiteChild_def)
  next
    case (Finish a b)
    with finish_once(1)[OF wf o, of a b] show ?thesis by simp
  next
    case (FinishIfStarted a)
    with finishIfStarted_once[of t s st a] wf o show ?thesis by simp
  qed
qed

lemma run_once: "wellFormed t \<Longrightarrow> once t s \<Longrightarrow> once (run st t cs) s"
proof (induction cs arbitrary: t)
  case Nil
  then show ?case by simp
next
  case (Cons c cs)
  have "wellFormed (snd (call st t c))" using Cons.prems(1) by (rule call_wellFormed)
  moreover have "once (snd (call st t c)) s" using Cons.prems by (rule call_once)
  ultimately show ?case using Cons.IH by simp
qed

lemma newTree_once: "once (newTree prefix) s"
  by (simp add: once_def finishedSuite_def stateAt_def newTree_def newTestSuiteNode_def deref_def)

lemma finish_message_once:
  assumes reach: "t = run stack (newTree prefix) calls"
    and s: "deref t s = Some sn" and v: "variant sn = TestSuiteNode sf"
  shows "count_list (written t) (suiteFinishMessage (id_node sn) @ [0x0A]) =
         (if state sn = FINISHED then 1 else 0)"
proof -
  have wf: "wellFormed t" unfolding reach by (rule run_wellFormed) (rule newTree_wellFormed)
  have "once t s" unfolding reach using newTree_wellFormed newTree_once by (rule run_once)
  moreover have "suiteLine (idPrefix t) s = suiteFinishMessage (id_node sn) @ [0x0A]"
    by (simp add: suiteLine_def wellFormed_idAt[OF wf s])
  moreover have "finishedSuite t s = (state sn = FINISHED)"
    using s v by (simp add: finishedSuite_def isSuiteAt_def stateAt_def)
  ultimately show ?thesis by (simp add: once_def)
qed

section \<open>Automatic finish of a suite\<close>

text \<open>
  C3, as the code has it. Let a tree be built by calls and \<open>s\<close> be a suite of it
  other than the root, with \<open>N\<close> children.

  The counter of \<open>s\<close> never exceeds the number of its finished children. It is
  that number if all children of \<open>s\<close> that have finished have finished with
  propagation (\<open>allPropagated\<close>).

  The \<open>testSuiteFinished\<close> message of \<open>s\<close> occurs exactly once in all that has
  been written if \<open>s\<close> is finished, and not at all if it is not.

  Let \<open>c\<close> be a child of \<open>s\<close> that is registered or started and has a finish
  message, which is never the message of \<open>s\<close>. Not before the last child: if another
  child of \<open>s\<close> is not finished, or \<open>s\<close> is finished already, then \<open>finish\<close>
  of \<open>c\<close> with propagation writes the message of \<open>c\<close>, increments the counter of
  \<open>s\<close> and does nothing else: the state of \<open>s\<close> is unchanged and no message of
  \<open>s\<close> is written. Immediately after the last child: if all other children of
  \<open>s\<close> are finished, all of them with propagation, and \<open>s\<close> is registered or
  started, then \<open>s\<close> becomes finished, its \<open>testSuiteFinished\<close> message is
  written directly after the message of \<open>c\<close> and nowhere else in what the call
  writes, and the parent of \<open>s\<close>, unless it is the root, is notified in its turn.
  Every tree that further calls build is again a tree built by calls, so this holds
  after any interleaving of calls.

  All children in a row: if no child of \<open>s\<close> has finished without propagation,
  \<open>s\<close> is registered or started and all its children are ready to finish, let them
  finish with propagation in any order. After any number of them short of \<open>N\<close>, no
  call has failed, the state of \<open>s\<close> is unchanged and only the messages of those
  children have been written. After the last one \<open>s\<close> is finished, and its message
  follows the messages of the \<open>N\<close> children directly and occurs exactly once in
  what has been written since.

  (A suite that is still created raises instead: C10.)
\<close>

theorem suite_finishes_after_last_child:
  assumes "t = run stack (newTree prefix) calls"
    and "deref t s = Some sn" and "variant sn = TestSuiteNode sf" and "s \<noteq> root t"
  shows
    "finishedChildCount sf \<le> finishedChildren t sf \<and>
     (allPropagated stack (newTree prefix) calls s \<longrightarrow>
        finishedChildCount sf = finishedChildren t sf) \<and>
     count_list (written t) (suiteFinishMessage (id_node sn) @ [0x0A]) =
       (if state sn = FINISHED then 1 else 0) \<and>
     (c \<in> set (children sf) \<and> deref t c = Some cn \<and>
      (state cn = REGISTERED \<or> state cn = STARTED) \<and> getFinishMessage cn = Inr cmsg \<longrightarrow>
        cmsg \<noteq> suiteFinishMessage (id_node sn) \<and>
        ((\<exists>x \<in> set (children sf). x \<noteq> c \<and> stateAt t x \<noteq> Some FINISHED) \<or> state sn = FINISHED \<longrightarrow>
            finish t c True = (Inr (), counted (setState (writeln t cmsg) c FINISHED) s sf)) \<and>
        (allPropagated stack (newTree prefix) calls s \<and>
         (\<forall>x \<in> set (children sf). x \<noteq> c \<longrightarrow> stateAt t x = Some FINISHED) \<and>
         (state sn = REGISTERED \<or> state sn = STARTED) \<longrightarrow>
            finish t c True =
              (case parent sn of
                 None \<Rightarrow> (Inr (), setState (writeln (counted (setState (writeln t cmsg) c FINISHED) s sf)
                                  (suiteFinishMessage (id_node sn))) s FINISHED)
               | Some p \<Rightarrow>
                   if p \<noteq> root t then
                     onChildFinished (setState (writeln (counted (setState (writeln t cmsg) c FINISHED) s sf)
                                  (suiteFinishMessage (id_node sn))) s FINISHED) p
                   else (Inr (), setState (writeln (counted (setState (writeln t cmsg) c FINISHED) s sf)
                                  (suiteFinishMessage (id_node sn))) s FINISHED)) \<and>
            stateAt (snd (finish t c True)) s = Some FINISHED \<and>
            (\<exists>rest. written (snd (finish t c True)) =
                written t @ [cmsg @ [0x0A], suiteFinishMessage (id_node sn) @ [0x0A]] @ rest \<and>
                suiteFinishMessage (id_node sn) @ [0x0A] \<notin> set rest))) \<and>
     (allPropagated stack (newTree prefix) calls s \<and>
      (state sn = REGISTERED \<or> state sn = STARTED) \<and>
      distinct order \<and> set order = set (children sf) \<and> order \<noteq> [] \<and>
      (\<forall>c \<in> set order. readyToFinish t c) \<longrightarrow>
        (\<forall>j < length order.
            fst (finishChildren t (take j order)) = Inr () \<and>
            stateAt (snd (finishChildren t (take j order))) s = Some (state sn) \<and>
            written (snd (finishChildren t (take j order))) =
              written t @ map (finishLine t) (take j order)) \<and>
        stateAt (snd (finishChildren t order)) s = Some FINISHED \<and>
        (\<exists>rest. written (snd (finishChildren t order)) =
            written t @ map (finishLine t) order @ [suiteFinishMessage (id_node sn) @ [0x0A]] @ rest \<and>
            suiteFinishMessage (id_node sn) @ [0x0A] \<notin> set (map (finishLine t) order) \<union> set rest))"
    (is "?least \<and> (?told \<longrightarrow> ?exact) \<and> ?once \<and> (?one \<longrightarrow> ?differs \<and> (?early \<longrightarrow> ?stay) \<and> (?last \<longrightarrow> ?step)) \<and>
         (?all \<longrightarrow> ?run)")
proof -
  have wf: "wellFormed t" unfolding assms(1) by (rule run_wellFormed) (rule newTree_wellFormed)
  from assms(2) have s_lt: "s < length (heap t)" and s_nth: "heap t ! s = sn"
    by (simp_all add: deref_Some)
  have vs: "variant (heap t ! s) = TestSuiteNode sf" by (simp only: s_nth assms(3))
  from wellFormed_children[OF wf s_lt vs] have d: "distinct (children sf)" by blast
  have least: ?least using assms by (rule counter_at_most_finished_children(1))
  have exact: ?exact if ?told using assms that by (rule counter_at_most_finished_children(2))
  have once: ?once using assms(1,2,3) by (rule finish_message_once)
  have child: "?differs \<and> (?early \<longrightarrow> ?stay) \<and> (?last \<longrightarrow> ?step)" if ?one
  proof -
    from that have c: "c \<in> set (children sf)" "deref t c = Some cn"
      "state cn = REGISTERED \<or> state cn = STARTED" "getFinishMessage cn = Inr cmsg" by blast+
    note step = auto_finish_step[OF assms c]
    from c(2,3) have nf: "\<not> stateAt t c = Some FINISHED" by (auto simp: stateAt_def)
    have differs: ?differs using wf assms(2,3) c(1,2,4) by (rule child_message_differs)
    have stay: ?stay if early: ?early
    proof -
      have "finishedChildCount sf + 1 \<noteq> length (children sf) \<or> state sn = FINISHED"
      proof (cases "state sn = FINISHED")
        case True
        then show ?thesis by simp
      next
        case False
        with early have "\<exists>x \<in> set (children sf). x \<noteq> c \<and> \<not> stateAt t x = Some FINISHED" by blast
        with all_others_finished(2)[where P="\<lambda>x. stateAt t x = Some FINISHED", OF d c(1) nf]
        have "finishedChildren t sf + 1 < length (children sf)"
          unfolding finishedChildren_def by blast
        with least show ?thesis by simp
      qed
      with step show ?thesis by blast
    qed
    have last: ?step if l: ?last
    proof -
      from l have p: ?told and others: "\<forall>x \<in> set (children sf). x \<noteq> c \<longrightarrow> stateAt t x = Some FINISHED"
        and st: "state sn = REGISTERED \<or> state sn = STARTED" by blast+
      from all_others_finished(1)[where P="\<lambda>x. stateAt t x = Some FINISHED", OF d c(1) nf] others
      have "finishedChildren t sf + 1 = length (children sf)"
        unfolding finishedChildren_def by blast
      with exact[OF p] have "finishedChildCount sf + 1 = length (children sf)" by simp
      with step st show ?thesis unfolding stateAt_def by blast
    qed
    from differs stay last show ?thesis by blast
  qed
  have run: ?run if a: ?all
  proof -
    from a have p: ?told and st: "state sn = REGISTERED \<or> state sn = STARTED"
      and o: "distinct order" "set order = set (children sf)" "order \<noteq> []"
        "\<forall>c \<in> set order. readyToFinish t c" by blast+
    have "\<not> stateAt t x = Some FINISHED" if "x \<in> set (children sf)" for x
    proof -
      from that o(2,4) have "readyToFinish t x" by blast
      then obtain n where "deref t x = Some n" "state n = REGISTERED \<or> state n = STARTED"
        by (rule readyToFinishE)
      then show ?thesis by (auto simp: stateAt_def)
    qed
    then have "finishedChildren t sf = 0" by (simp add: finishedChildren_def)
    with exact[OF p] have k0: "finishedChildCount sf = 0" by simp
    show ?thesis using assms k0 st o by (rule finishChildren_all)
  qed
  from least exact once child run show ?thesis by blast
qed


theorem suite_finishes_after_last_child_witness:
  "finishedChildren threeLeaves (threeLeavesSuite 1) = 1 \<and>
   count_list (written threeLeaves) (lit ''##teamcity[testSuiteFinished nodeId='1']'' @ [0x0A]) = 0 \<and>
   count_list (written finishedTree) (lit ''##teamcity[testSuiteFinished nodeId='1']'' @ [0x0A]) = 1 \<and>
   finish threeLeaves 3 True =
     (Inr (), counted (setState (writeln threeLeaves
        (lit ''##teamcity[testFinished nodeId='3' duration='6']'')) 3 FINISHED) 1 (threeLeavesSuite 1)) \<and>
   fst (finish twoDone 4 True) = Inr () \<and>
   stateAt (snd (finish twoDone 4 True)) 1 = Some FINISHED \<and>
   written (snd (finish twoDone 4 True)) = written twoDone @
     [lit ''##teamcity[testFinished nodeId='4' duration='7']'' @ [0x0A],
      lit ''##teamcity[testSuiteFinished nodeId='1']'' @ [0x0A]] \<and>
   stateAt (snd (finishChildren threeReady [3, 2])) 1 = Some STARTED \<and>
   stateAt (snd (finishChildren threeReady [3, 2, 4])) 1 = Some FINISHED"
proof -
  have sm: "suiteFinishMessage (NumId 1) = lit ''##teamcity[testSuiteFinished nodeId='1']''"
    by (simp add: suiteFinishMessage_def digitsOf_digit lit_def)
  have r1: "1 \<noteq> root threeLeaves" and r2: "1 \<noteq> root twoDone" and r3: "1 \<noteq> root threeReady"
    by (simp_all add: threeLeaves_nodes twoDone_nodes threeReady_nodes)
  have v2: "variant ((heap threeLeaves ! 1)\<lparr>variant := TestSuiteNode (threeLeavesSuite 2)\<rparr>)
              = TestSuiteNode (threeLeavesSuite 2)" by simp
  have p1: "allPropagated 0 (newTree None) threeLeavesCalls 1"
    and p2: "allPropagated 0 (newTree None) (threeLeavesCalls @ [Finish 3 True]) 1"
    and p3: "allPropagated 0 (newTree None) threeReadyCalls 1"
    by (simp_all add: threeLeavesCalls_def threeReadyCalls_def finishesSilently_def)
  have child3: "3 \<in> set (children (threeLeavesSuite 1)) \<and>
      deref threeLeaves 3 = Some (heap threeLeaves ! 3) \<and>
      (state (heap threeLeaves ! 3) = REGISTERED \<or> state (heap threeLeaves ! 3) = STARTED) \<and>
      getFinishMessage (heap threeLeaves ! 3) =
        Inr (lit ''##teamcity[testFinished nodeId='3' duration='6']'')"
    by (simp add: threeLeavesSuite_def threeLeaves_nodes)
  have child4: "4 \<in> set (children (threeLeavesSuite 2)) \<and>
      deref twoDone 4 = Some (heap threeLeaves ! 4) \<and>
      (state (heap threeLeaves ! 4) = REGISTERED \<or> state (heap threeLeaves ! 4) = STARTED) \<and>
      getFinishMessage (heap threeLeaves ! 4) =
        Inr (lit ''##teamcity[testFinished nodeId='4' duration='7']'')"
    by (simp add: threeLeavesSuite_def threeLeaves_nodes twoDone_nodes)
  note at1 = suite_finishes_after_last_child[OF threeLeaves_def threeLeaves_nodes(2,5) r1]
  note at2 = suite_finishes_after_last_child[OF twoDone_def twoDone_nodes(2) v2 r2]
  note at3 = suite_finishes_after_last_child[OF threeReady_def threeReady_nodes(2,3) r3]
  from at1[THEN conjunct2, THEN conjunct1, THEN mp, OF p1]
  have zero: "finishedChildren threeLeaves (threeLeavesSuite 1) = 1"
    by (simp add: threeLeavesSuite_def)
  from at1[THEN conjunct2, THEN conjunct2, THEN conjunct1]
  have never: "count_list (written threeLeaves)
      (lit ''##teamcity[testSuiteFinished nodeId='1']'' @ [0x0A]) = 0"
    by (simp add: threeLeaves_facts sm sm[unfolded One_nat_def])
  have reach4: "finishedTree = run 0 (newTree None)
      [AddTestSuiteChild 0 (lit ''suite'') None None, Start 1, Finish 1 False]"
    by (simp add: finishedTree_def startedTree_def suiteTree_def)
  have "deref suiteTree 1 = Some (heap suiteTree ! 1)" by (simp add: suiteTree_eq deref_def)
  then have "deref startedTree 1 = Some ((heap suiteTree ! 1)\<lparr>state := STARTED\<rparr>)"
    unfolding startedTree_eq by (rule deref_finished)
  then have d4: "deref finishedTree 1 =
      Some ((heap suiteTree ! 1)\<lparr>state := STARTED\<rparr>\<lparr>state := FINISHED\<rparr>)"
    unfolding finishedTree_eq by (rule deref_finished)
  have v4: "variant ((heap suiteTree ! 1)\<lparr>state := STARTED\<rparr>\<lparr>state := FINISHED\<rparr>) =
      TestSuiteNode \<lparr>children = [], lookupMap = [], finishedChildCount = 0\<rparr>"
    by (simp add: suiteTree_eq)
  have r4: "1 \<noteq> root finishedTree" by (simp add: finishedTree_eq startedTree_node)
  from suite_finishes_after_last_child[OF reach4 d4 v4 r4, THEN conjunct2, THEN conjunct2, THEN conjunct1]
  have always: "count_list (written finishedTree)
      (lit ''##teamcity[testSuiteFinished nodeId='1']'' @ [0x0A]) = 1"
    by (simp add: suiteTree_eq sm sm[unfolded One_nat_def])
  note first = at1[THEN conjunct2, THEN conjunct2, THEN conjunct2, THEN conjunct1, THEN mp, OF child3]
  note second = at2[THEN conjunct2, THEN conjunct2, THEN conjunct2, THEN conjunct1, THEN mp, OF child4]
  have s4: "stateAt threeLeaves 4 = Some STARTED"
    by (simp add: stateAt_def threeLeaves_nodes)
  have early: "(\<exists>x \<in> set (children (threeLeavesSuite 1)). x \<noteq> 3 \<and> stateAt threeLeaves x \<noteq> Some FINISHED) \<or>
      state (heap threeLeaves ! 1) = FINISHED"
    using s4 by (simp add: threeLeavesSuite_def)
  have one: "finish threeLeaves 3 True =
     (Inr (), counted (setState (writeln threeLeaves
        (lit ''##teamcity[testFinished nodeId='3' duration='6']'')) 3 FINISHED) 1 (threeLeavesSuite 1))"
    by (rule first[THEN conjunct2, THEN conjunct1, THEN mp, OF early])
  have s2: "stateAt twoDone 2 = Some FINISHED" and s3: "stateAt twoDone 3 = Some FINISHED"
    by (simp_all add: twoDone_eq threeLeaves_facts) (simp add: stateAt_def threeLeaves_eq deref_def)
  have last: "allPropagated 0 (newTree None) (threeLeavesCalls @ [Finish 3 True]) 1 \<and>
     (\<forall>x \<in> set (children (threeLeavesSuite 2)). x \<noteq> 4 \<longrightarrow> stateAt twoDone x = Some FINISHED) \<and>
     (state ((heap threeLeaves ! 1)\<lparr>variant := TestSuiteNode (threeLeavesSuite 2)\<rparr>) = REGISTERED \<or>
      state ((heap threeLeaves ! 1)\<lparr>variant := TestSuiteNode (threeLeavesSuite 2)\<rparr>) = STARTED)"
    using p2 s2 s3 by (simp add: threeLeavesSuite_def threeLeaves_facts)
  note concl = second[THEN conjunct2, THEN conjunct2, THEN mp, OF last]
  have
    two: "finish twoDone 4 True =
       (Inr (), setState (writeln (counted (setState (writeln twoDone
           (lit ''##teamcity[testFinished nodeId='4' duration='7']'')) 4 FINISHED) 1 (threeLeavesSuite 2))
           (suiteFinishMessage (NumId 1))) 1 FINISHED)"
    using concl[THEN conjunct1]
    by (simp add: threeLeaves_nodes twoDone_nodes(1) del: One_nat_def)
  have fin: "stateAt (snd (finish twoDone 4 True)) 1 = Some FINISHED"
    by (rule concl[THEN conjunct2, THEN conjunct1])
  from two have three: "fst (finish twoDone 4 True) = Inr ()"
    and four: "written (snd (finish twoDone 4 True)) = written twoDone @
     [lit ''##teamcity[testFinished nodeId='4' duration='7']'' @ [0x0A],
      lit ''##teamcity[testSuiteFinished nodeId='1']'' @ [0x0A]]"
    by (simp_all add: sm sm[unfolded One_nat_def])
  have ready: "allPropagated 0 (newTree None) threeReadyCalls 1 \<and>
      (state (heap threeReady ! 1) = REGISTERED \<or> state (heap threeReady ! 1) = STARTED) \<and>
      distinct [3, 2, 4 :: nat] \<and> set [3, 2, 4] = set (children (threeLeavesSuite 0)) \<and>
      [3, 2, 4 :: nat] \<noteq> [] \<and> (\<forall>c \<in> set [3, 2, 4]. readyToFinish threeReady c)"
    using p3 threeReady_nodes(4-7) by (auto simp: threeLeavesSuite_def)
  note all = at3[THEN conjunct2, THEN conjunct2, THEN conjunct2, THEN conjunct2, THEN mp, OF ready]
  from all have "\<forall>j < length [3, 2, 4 :: nat].
      stateAt (snd (finishChildren threeReady (take j [3, 2, 4]))) 1 = Some (state (heap threeReady ! 1))"
    by blast
  then have "2 < length [3, 2, 4 :: nat] \<longrightarrow>
      stateAt (snd (finishChildren threeReady (take 2 [3, 2, 4]))) 1 = Some (state (heap threeReady ! 1))"
    by (rule spec)
  moreover have "take 2 [3, 2, 4 :: nat] = [3, 2]" by (simp add: take_Cons')
  ultimately have "stateAt (snd (finishChildren threeReady [3, 2])) 1 = Some (state (heap threeReady ! 1))"
    by simp
  then have five: "stateAt (snd (finishChildren threeReady [3, 2])) 1 = Some STARTED"
    by (simp only: threeReady_nodes(4))
  from all have six: "stateAt (snd (finishChildren threeReady [3, 2, 4])) 1 = Some FINISHED"
    by blast
  from zero never always one three fin four five six show ?thesis by (intro conjI)
qed

text \<open>
  C3 as stated fails for a suite that has not been registered or started: its only child
  finishes with propagation, the call raises, and the suite stays created.
\<close>

theorem created_suite_not_finished_counterexample:
  "map_option (\<lambda>n. (state n, variant n)) (deref runningLeaf 1) =
     Some (CREATED, TestSuiteNode \<lparr>children = [2], lookupMap = [(lit ''leaf'', Single 2)],
                      finishedChildCount = 0\<rparr>) \<and>
   fst (finish runningLeaf 2 True) = Inl (UnexpectedNodeState CREATED) \<and>
   map_option state (deref (snd (finish runningLeaf 2 True)) 2) = Some FINISHED \<and>
   map_option state (deref (snd (finish runningLeaf 2 True)) 1) = Some CREATED"
proof -
  let ?leaf = "(newTestNode (NumId 2) (Some 1) (lit ''leaf'') None None)
     \<lparr>variant := TestNode \<lparr>outcome = Some SUCCESS, durationMillis = Some 42, failureMsg = None,
        failureDetails = None, expectedStr = None, actualStr = None, expectedFilePath = None,
        actualFilePath = None, metainfo = None\<rparr>\<rparr>"
  let ?sf = "\<lparr>children = [2], lookupMap = [(lit ''leaf'', Single 2)], finishedChildCount = 0\<rparr>"
  have s: "deref runningLeaf 1 = Some (heap leafTree ! 1)"
    by (simp add: runningLeaf_eq) (simp add: leafTreeDone_def setOutcome_def leafTree_eq deref_def updNode_def newTestNode_def)
  have l: "deref runningLeaf 2 = Some (?leaf\<lparr>state := STARTED\<rparr>)"
    by (simp add: runningLeaf_eq leafTreeDone_leaf)
  have r: "root runningLeaf = 0"
    by (simp add: runningLeaf_eq) (simp add: leafTreeDone_def setOutcome_def leafTree_eq deref_def newTestNode_def)
  obtain msg where m: "getFinishMessage (?leaf\<lparr>state := STARTED\<rparr>) = Inr msg"
    by (simp add: msg_defs newTestNode_def)
  let ?t1 = "setState (writeln runningLeaf msg) 2 FINISHED"
  have "finish runningLeaf 2 True = onChildFinished ?t1 1"
    using finish_step[OF _ l _ m, of True] by (simp add: r newTestNode_def)
  moreover have s1: "deref ?t1 1 = Some (heap leafTree ! 1)" using s by simp
  ultimately have "finish runningLeaf 2 True = finish (counted ?t1 1 ?sf) 1 True"
    using onChildFinished_step[OF s1 leafTree_nodes(4)] leafTree_nodes(5)
    by (simp add: counted_def)
  moreover have "finish (counted ?t1 1 ?sf) 1 True =
      (Inl (UnexpectedNodeState CREATED), counted ?t1 1 ?sf)"
    using finish_bad_state[OF _ deref_counted[OF s1], of ?sf True] leafTree_nodes(5)
    by (simp add: r)
  ultimately have f: "finish runningLeaf 2 True =
      (Inl (UnexpectedNodeState CREATED), counted ?t1 1 ?sf)" by simp
  show ?thesis
    unfolding f using s l by (simp add: leafTree_facts)
qed

text \<open>
  C10. When \<open>onChildFinished\<close> makes the counter of a suite other than the root reach
  the number of its children while the suite is still created, the call raises an
  illegal-state error: the counter is incremented, nothing is written and the suite stays
  created. Of the suites that are not finished, exactly the registered and the started
  ones are finished by the call.
\<close>

theorem created_suite_cannot_auto_finish:
  assumes "deref t a = Some n" and "variant n = TestSuiteNode s" and "a \<noteq> root t"
    and "finishedChildCount s + 1 = length (children s)"
  shows "(state n = CREATED \<longrightarrow>
            onChildFinished t a = (Inl (UnexpectedNodeState CREATED), counted t a s) \<and>
            isIllegalState (UnexpectedNodeState CREATED) \<and>
            map_option state (deref (counted t a s) a) = Some CREATED \<and>
            written (counted t a s) = written t) \<and>
         (state n \<noteq> FINISHED \<longrightarrow>
            (map_option state (deref (snd (onChildFinished t a)) a) = Some FINISHED) =
            (state n = REGISTERED \<or> state n = STARTED))"
proof -
  let ?t = "counted t a s"
  let ?n = "n\<lparr>variant := TestSuiteNode (s\<lparr>finishedChildCount := finishedChildCount s + 1\<rparr>)\<rparr>"
  have n': "deref ?t a = Some ?n" using assms(1) by (rule deref_counted)
  have r: "root ?t \<noteq> a" using assms(3) by simp
  have step: "state n \<noteq> FINISHED \<Longrightarrow> onChildFinished t a = finish ?t a True"
    using onChildFinished_step[OF assms(1,2)] assms(4) by (simp add: counted_def)
  have created: "onChildFinished t a = (Inl (UnexpectedNodeState CREATED), ?t)"
    if "state n = CREATED"
    using step that finish_bad_state[OF r n', of True] by simp
  have finished: "map_option state (deref (snd (onChildFinished t a)) a) = Some FINISHED"
    if st: "state n = REGISTERED \<or> state n = STARTED"
  proof -
    let ?msg = "suiteFinishMessage (id_node n)"
    let ?t' = "setState (writeln ?t ?msg) a FINISHED"
    have msg: "getFinishMessage ?n = Inr ?msg"
      using getFinishMessage_suite[of ?n] by simp
    have st': "state ?n = REGISTERED \<or> state ?n = STARTED" using st by simp
    have fin: "deref ?t' a = Some (?n\<lparr>state := FINISHED\<rparr>)" using n' by (rule deref_finished)
    have "snd (finish ?t a True) = ?t' \<or> (\<exists>p. snd (finish ?t a True) = snd (onChildFinished ?t' p))"
      using finish_step[OF r n' st' msg, of True] by (auto split: option.splits)
    then have "treeProgress ?t' (snd (finish ?t a True))"
      using finish_progress(2) by (auto simp: treeProgress_refl)
    from progress_keeps_finished[OF this fin] step st show ?thesis by auto
  qed
  show ?thesis
  proof (intro conjI impI)
    assume "state n = CREATED"
    then show "onChildFinished t a = (Inl (UnexpectedNodeState CREATED), ?t)" by (rule created)
    show "isIllegalState (UnexpectedNodeState CREATED)" by simp
    show "written ?t = written t" by (simp add: counted_def)
    show "map_option state (deref ?t a) = Some CREATED"
      unfolding n' using \<open>state n = CREATED\<close> by simp
  next
    assume nf: "state n \<noteq> FINISHED"
    show "(map_option state (deref (snd (onChildFinished t a)) a) = Some FINISHED) =
            (state n = REGISTERED \<or> state n = STARTED)"
    proof (cases "state n")
      case CREATED
      with created have "deref (snd (onChildFinished t a)) a = Some ?n" by (simp only: snd_conv n')
      with CREATED show ?thesis by simp
    next
      case REGISTERED
      with finished show ?thesis by simp
    next
      case STARTED
      with finished show ?thesis by simp
    next
      case FINISHED
      with nf show ?thesis by simp
    qed
  qed
qed

theorem created_suite_cannot_auto_finish_witness:
  "onChildFinished leafTree 1 =
     (Inl (UnexpectedNodeState CREATED),
      counted leafTree 1
        \<lparr>children = [2], lookupMap = [(lit ''leaf'', Single 2)], finishedChildCount = 0\<rparr>) \<and>
   map_option state (deref (snd (onChildFinished leafTree 1)) 1) \<noteq> Some FINISHED \<and>
   map_option state (deref (snd (onChildFinished (snd (start leafTree 1)) 1)) 1) = Some FINISHED"
proof -
  let ?sf = "\<lparr>children = [2], lookupMap = [(lit ''leaf'', Single 2)], finishedChildCount = 0\<rparr>"
  have r: "1 \<noteq> root leafTree" by (simp add: leafTree_nodes)
  have k: "finishedChildCount ?sf + 1 = length (children ?sf)" by simp
  note created = created_suite_cannot_auto_finish[OF leafTree_nodes(2,4) r k]
  have one: "onChildFinished leafTree 1 = (Inl (UnexpectedNodeState CREATED), counted leafTree 1 ?sf)"
    using created[THEN conjunct1] leafTree_nodes(5) by blast
  have two: "map_option state (deref (snd (onChildFinished leafTree 1)) 1) \<noteq> Some FINISHED"
    using created[THEN conjunct2] leafTree_nodes(5) by simp
  obtain msg where st: "start leafTree 1 = (Inr (), setState (writeln leafTree msg) 1 STARTED)"
    using start_leafTree by blast
  let ?t = "setState (writeln leafTree msg) 1 STARTED"
  have n: "deref ?t 1 = Some ((heap leafTree ! 1)\<lparr>state := STARTED\<rparr>)"
    using leafTree_nodes(2) by (rule deref_finished)
  have v: "variant ((heap leafTree ! 1)\<lparr>state := STARTED\<rparr>) = TestSuiteNode ?sf"
    by (simp add: leafTree_facts)
  have r': "1 \<noteq> root ?t" by (simp add: leafTree_nodes)
  note started = created_suite_cannot_auto_finish[OF n v r' k]
  have "map_option state (deref (snd (onChildFinished ?t 1)) 1) = Some FINISHED"
    using started[THEN conjunct2] by simp
  with one two st show ?thesis by simp
qed

end
